theory Spec2Isabelle
  imports Main "HOL-Library.Product_Lexorder" "HOL-Library.Sublist"
begin

section \<open>Data model of the triangle engine (src/lib/triangle.ts)\<close>

text \<open>
  The engine works against a Prisma store. The store is modelled as a record of tables, each
  table a list of rows in insertion order. Identifiers of triangles and positions and all
  timestamps are drawn from one logical clock held in the store: a created row receives the
  current clock value and the clock advances, so later rows carry larger identifiers and
  timestamps. User identifiers are strings, as \<open>findReferrer\<close> inspects their characters.
  Money amounts (\<open>balance\<close>, \<open>totalEarned\<close>, \<open>payout\<close>, \<open>amount\<close>) have the type
  parameter \<open>'m\<close>: the schema fixing their numeric type is not part of the sources, and the
  engine only ever adds them.
\<close>

record 'm user =
  user_id :: string
  username :: string
  referralCode :: "string option"
  plan :: string
  uplineId :: "string option"
  balance :: 'm
  totalEarned :: 'm

record triangle =
  tri_id :: nat
  planType :: string
  isComplete :: bool
  completedAt :: "nat option"
  payoutProcessed :: bool
  tri_createdAt :: nat

record tposition =
  pos_id :: nat
  triangleId :: nat
  level :: nat
  position :: nat
  positionKey :: string
  userId :: "string option"
  pos_createdAt :: nat

record 'm plan_row =
  plan_name :: string
  payout :: 'm

record 'm transaction =
  tx_userId :: string
  tx_type :: string
  tx_amount :: 'm
  tx_status :: string
  tx_stamp :: nat
  tx_description :: string

record 'm store =
  users :: "'m user list"
  triangles :: "triangle list"
  trianglePositions :: "tposition list"
  plans :: "'m plan_row list"
  transactions :: "'m transaction list"
  clock :: nat

text \<open>The projection \<open>select: { id, username, plan }\<close> returned by \<open>findReferrer\<close>.\<close>

record referrer_sel =
  sel_id :: string
  sel_username :: string
  sel_plan :: string

datatype error = UserNotFound | NoAvailablePositions | RecordNotFound | NullDereference

text \<open>\<open>TRIANGLE_STRUCTURE\<close>: the fifteen \<open>(level, position, key)\<close> triples, in source order.\<close>

definition TRIANGLE_STRUCTURE :: "(nat \<times> nat \<times> string) list" where
  "TRIANGLE_STRUCTURE =
    [(1, 0, ''A''),
     (2, 0, ''AB1''), (2, 1, ''AB2''),
     (3, 0, ''B1C1''), (3, 1, ''B1C2''), (3, 2, ''B2C1''), (3, 3, ''B2C2''),
     (4, 0, ''C1D1''), (4, 1, ''C1D2''), (4, 2, ''C2D1''), (4, 3, ''C2D2''),
     (4, 4, ''C3D1''), (4, 5, ''C3D2''), (4, 6, ''C4D1''), (4, 7, ''C4D2'')]"

definition ab1SubtreeMap :: "(string \<times> string) list" where
  "ab1SubtreeMap =
    [(''B1C1'', ''AB1''), (''B1C2'', ''AB2''), (''C1D1'', ''B1C1''),
     (''C1D2'', ''B1C2''), (''C2D1'', ''B2C1''), (''C2D2'', ''B2C2'')]"

definition ab2SubtreeMap :: "(string \<times> string) list" where
  "ab2SubtreeMap =
    [(''B2C1'', ''AB1''), (''B2C2'', ''AB2''), (''C3D1'', ''B1C1''),
     (''C3D2'', ''B1C2''), (''C4D1'', ''B2C1''), (''C4D2'', ''B2C2'')]"

section \<open>Store queries\<close>

text \<open>
  \<open>update\<close> and \<open>delete\<close> with a unique \<open>where\<close> clause throw when no row matches; the
  rows addressed by a unique key are all rows carrying that key (there is at most one in a
  store the database maintains).
\<close>

definition update_rows :: "('a \<Rightarrow> bool) \<Rightarrow> ('a \<Rightarrow> 'a) \<Rightarrow> 'a list \<Rightarrow> 'a list option" where
  "update_rows P f xs =
     (if list_ex P xs then Some (map (\<lambda>x. if P x then f x else x) xs) else None)"

definition find_user :: "'m store \<Rightarrow> string \<Rightarrow> 'm user option" where
  "find_user st i = find (\<lambda>u. user_id u = i) (users st)"

definition find_triangle :: "'m store \<Rightarrow> nat \<Rightarrow> triangle option" where
  "find_triangle st i = find (\<lambda>t. tri_id t = i) (triangles st)"

definition find_plan :: "'m store \<Rightarrow> string \<Rightarrow> 'm plan_row option" where
  "find_plan st n = find (\<lambda>p. plan_name p = n) (plans st)"

text \<open>The relation \<open>include: { user: true }\<close> of a position row.\<close>

definition position_user :: "'m store \<Rightarrow> tposition \<Rightarrow> 'm user option" where
  "position_user st p = (case userId p of None \<Rightarrow> None | Some i \<Rightarrow> find_user st i)"

text \<open>\<open>orderBy: [{ level: 'asc' }, { position: 'asc' }]\<close>\<close>

definition by_level_position :: "tposition list \<Rightarrow> tposition list" where
  "by_level_position ps = sort_key (\<lambda>p. (level p, position p)) ps"

text \<open>\<open>orderBy: { createdAt: 'desc' }\<close> on positions.\<close>

definition newest_first :: "tposition list \<Rightarrow> tposition list" where
  "newest_first ps = rev (sort_key pos_createdAt ps)"

text \<open>
  \<open>trianglePosition.findFirst({ where: { triangleId, userId: null }, orderBy: level, position })\<close>
\<close>

definition find_open_position :: "'m store \<Rightarrow> nat \<Rightarrow> tposition option" where
  "find_open_position st t =
     (case by_level_position
             (filter (\<lambda>p. triangleId p = t \<and> userId p = None) (trianglePositions st)) of
        [] \<Rightarrow> None
      | p # _ \<Rightarrow> Some p)"

text \<open>
  \<open>triangle.findFirst({ where: { planType, isComplete: false, positions: { some: { userId: null } } },
  orderBy: { createdAt: 'asc' } })\<close>
\<close>

definition find_oldest_open_triangle :: "'m store \<Rightarrow> string \<Rightarrow> triangle option" where
  "find_oldest_open_triangle st pl =
     (case sort_key tri_createdAt
             (filter (\<lambda>t. planType t = pl \<and> \<not> isComplete t \<and>
                          list_ex (\<lambda>p. triangleId p = tri_id t \<and> userId p = None)
                                  (trianglePositions st))
                     (triangles st)) of
        [] \<Rightarrow> None
      | t # _ \<Rightarrow> Some t)"

definition update_position ::
  "(tposition \<Rightarrow> bool) \<Rightarrow> string option \<Rightarrow> 'm store \<Rightarrow> error + 'm store" where
  "update_position P v st =
     (case update_rows P (\<lambda>p. p\<lparr>userId := v\<rparr>) (trianglePositions st) of
        None \<Rightarrow> Inl RecordNotFound
      | Some ps \<Rightarrow> Inr (st\<lparr>trianglePositions := ps\<rparr>))"

section \<open>createTriangle\<close>

text \<open>
  The rows of \<open>createMany\<close>: one per entry of the structure, unoccupied, with consecutive
  fresh identifiers and the timestamp of the single \<open>createMany\<close> call.
\<close>

fun new_positions :: "nat \<Rightarrow> nat \<Rightarrow> nat \<Rightarrow> (nat \<times> nat \<times> string) list \<Rightarrow> tposition list" where
  "new_positions t ts i [] = []"
| "new_positions t ts i ((l, n, k) # rest) =
     \<lparr>pos_id = i, triangleId = t, level = l, position = n, positionKey = k,
      userId = None, pos_createdAt = ts\<rparr> # new_positions t ts (Suc i) rest"

definition createTriangle :: "'m store \<Rightarrow> string \<Rightarrow> triangle \<times> 'm store" where
  "createTriangle st pl =
     (let t = \<lparr>tri_id = clock st, planType = pl, isComplete = False, completedAt = None,
               payoutProcessed = False, tri_createdAt = clock st\<rparr>;
          rows = new_positions (clock st) (Suc (clock st)) (Suc (clock st)) TRIANGLE_STRUCTURE
      in (t, st\<lparr>triangles := triangles st @ [t],
                trianglePositions := trianglePositions st @ rows,
                clock := clock st + 16\<rparr>))"

section \<open>cycleTriangle\<close>

text \<open>
  One iteration of the loops over \<open>Object.entries(ab1SubtreeMap)\<close> and
  \<open>Object.entries(ab2SubtreeMap)\<close>. \<open>snap\<close> is the list \<open>positions\<close> read at the start of
  \<open>cycleTriangle\<close>, each row with its included \<open>user\<close>.
\<close>

definition promote ::
  "(tposition \<times> 'm user option) list \<Rightarrow> nat \<Rightarrow> string \<times> string \<Rightarrow> 'm store \<Rightarrow> error + 'm store" where
  "promote snap t e st =
     (case find (\<lambda>(p, u). positionKey p = fst e) snap of
        None \<Rightarrow> Inr st
      | Some (oldPosition, None) \<Rightarrow> Inr st
      | Some (oldPosition, Some u) \<Rightarrow>
          (case find (\<lambda>p. triangleId p = t \<and> positionKey p = snd e) (trianglePositions st) of
             None \<Rightarrow> Inr st
           | Some newPosition \<Rightarrow>
               update_position (\<lambda>p. pos_id p = pos_id newPosition) (Some (user_id u)) st))"

fun promote_all ::
  "(tposition \<times> 'm user option) list \<Rightarrow> nat \<Rightarrow> (string \<times> string) list \<Rightarrow> 'm store \<Rightarrow> error + 'm store" where
  "promote_all snap t [] st = Inr st"
| "promote_all snap t (e # es) st =
     (case promote snap t e st of Inl err \<Rightarrow> Inl err | Inr st' \<Rightarrow> promote_all snap t es st')"

text \<open>The body of \<open>if (ab1User && ab2User) { ... }\<close>.\<close>

definition split_triangle ::
  "(tposition \<times> 'm user option) list \<Rightarrow> triangle \<Rightarrow> 'm user \<Rightarrow> 'm user \<Rightarrow> 'm store \<Rightarrow> error + 'm store" where
  "split_triangle snap tri ab1User ab2User st =
     (let (triangle1, st1) = createTriangle st (planType tri);
          (triangle2, st2) = createTriangle st1 (planType tri)
      in case update_position
                (\<lambda>p. triangleId p = tri_id triangle1 \<and> level p = 1 \<and> position p = 0)
                (Some (user_id ab1User)) st2 of
           Inl err \<Rightarrow> Inl err
         | Inr st3 \<Rightarrow>
            (case update_position
                    (\<lambda>p. triangleId p = tri_id triangle2 \<and> level p = 1 \<and> position p = 0)
                    (Some (user_id ab2User)) st3 of
               Inl err \<Rightarrow> Inl err
             | Inr st4 \<Rightarrow>
                (case promote_all snap (tri_id triangle1) ab1SubtreeMap st4 of
                   Inl err \<Rightarrow> Inl err
                 | Inr st5 \<Rightarrow> promote_all snap (tri_id triangle2) ab2SubtreeMap st5)))"

text \<open>\<open>trianglePosition.deleteMany\<close> followed by \<open>triangle.delete\<close>.\<close>

definition delete_triangle :: "nat \<Rightarrow> 'm store \<Rightarrow> error + 'm store" where
  "delete_triangle t st =
     (let st1 = st\<lparr>trianglePositions := filter (\<lambda>p. triangleId p \<noteq> t) (trianglePositions st)\<rparr>
      in if list_ex (\<lambda>x. tri_id x = t) (triangles st1)
         then Inr (st1\<lparr>triangles := filter (\<lambda>x. tri_id x \<noteq> t) (triangles st1)\<rparr>)
         else Inl RecordNotFound)"

text \<open>\<open>findMany({ where: { triangleId }, include: { user, triangle }, orderBy: level, position })\<close>\<close>

definition load_positions :: "'m store \<Rightarrow> nat \<Rightarrow> (tposition \<times> 'm user option) list" where
  "load_positions st t =
     map (\<lambda>p. (p, position_user st p))
         (by_level_position (filter (\<lambda>p. triangleId p = t) (trianglePositions st)))"

definition slot_user ::
  "(tposition \<times> 'm user option) list \<Rightarrow> nat \<Rightarrow> nat \<Rightarrow> 'm user option" where
  "slot_user snap l n =
     (case find (\<lambda>(p, u). level p = l \<and> position p = n) snap of
        None \<Rightarrow> None
      | Some (p, u) \<Rightarrow> u)"

definition cycleTriangle :: "'m store \<Rightarrow> nat \<Rightarrow> error + 'm store" where
  "cycleTriangle st t =
     (let snap = load_positions st t
      in case snap of
           [] \<Rightarrow> Inr st
         | (p0, u0) # _ \<Rightarrow>
            (case find_triangle st (triangleId p0) of
               None \<Rightarrow> Inr st
             | Some tri \<Rightarrow>
                (case (case (slot_user snap 2 0, slot_user snap 2 1) of
                         (Some ab1User, Some ab2User) \<Rightarrow> split_triangle snap tri ab1User ab2User st
                       | _ \<Rightarrow> Inr st) of
                   Inl err \<Rightarrow> Inl err
                 | Inr st' \<Rightarrow> delete_triangle t st')))"

section \<open>handleTriangleCompletion\<close>

text \<open>Lines 173 to 211: the automatic withdrawal for the occupant of position A.\<close>

definition completion_payout :: "'m::plus store \<Rightarrow> nat \<Rightarrow> error + 'm store" where
  "completion_payout st t =
     (case find (\<lambda>p. triangleId p = t \<and> level p = 1 \<and> position p = 0) (trianglePositions st) of
        None \<Rightarrow> Inr st
      | Some positionA \<Rightarrow>
         (case position_user st positionA of
            None \<Rightarrow> Inr st
          | Some u \<Rightarrow>
             (case find_triangle st (triangleId positionA) of
                None \<Rightarrow> Inl NullDereference
              | Some tri \<Rightarrow>
                 (case find_plan st (planType tri) of
                    None \<Rightarrow> Inr st
                  | Some pl \<Rightarrow>
                     (let st1 = st\<lparr>transactions := transactions st @
                                   [\<lparr>tx_userId = user_id u, tx_type = ''WITHDRAWAL'',
                                     tx_amount = payout pl, tx_status = ''PENDING'',
                                     tx_stamp = clock st,
                                     tx_description =
                                       ''Automatic withdrawal - Triangle completion''\<rparr>]\<rparr>
                      in case update_rows (\<lambda>x. user_id x = user_id u)
                                (\<lambda>x. x\<lparr>balance := balance x + payout pl,
                                       totalEarned := totalEarned x + payout pl\<rparr>)
                                (users st1) of
                           None \<Rightarrow> Inl RecordNotFound
                         | Some us \<Rightarrow> Inr (st1\<lparr>users := us\<rparr>))))))"

definition mark_complete :: "'m store \<Rightarrow> nat \<Rightarrow> error + 'm store" where
  "mark_complete st t =
     (case update_rows (\<lambda>x. tri_id x = t)
             (\<lambda>x. x\<lparr>isComplete := True, completedAt := Some (clock st)\<rparr>) (triangles st) of
        None \<Rightarrow> Inl RecordNotFound
      | Some ts \<Rightarrow> Inr (st\<lparr>triangles := ts\<rparr>))"

definition handleTriangleCompletion :: "'m::plus store \<Rightarrow> nat \<Rightarrow> error + 'm store" where
  "handleTriangleCompletion st t =
     (case mark_complete st t of
        Inl err \<Rightarrow> Inl err
      | Inr st1 \<Rightarrow>
         (case completion_payout st1 t of
            Inl err \<Rightarrow> Inl err
          | Inr st2 \<Rightarrow> cycleTriangle st2 t))"

section \<open>assignUserToTriangle\<close>

text \<open>
  \<open>referrerId || user.uplineId\<close> under the test \<open>if (...)\<close>: an absent or empty string is
  falsy, so the candidate is the first of the two that is a non-empty string.
\<close>

definition truthy :: "string option \<Rightarrow> bool" where
  "truthy s = (case s of None \<Rightarrow> False | Some x \<Rightarrow> x \<noteq> [])"

definition candidate_referrer :: "string option \<Rightarrow> string option \<Rightarrow> string option" where
  "candidate_referrer referrerId upline =
     (if truthy referrerId then referrerId else if truthy upline then upline else None)"

text \<open>Step 1 (lines 69 to 103): the referrer's triangle, when it can take the user.\<close>

definition referrer_triangle :: "'m store \<Rightarrow> 'm user \<Rightarrow> string option \<Rightarrow> triangle option" where
  "referrer_triangle st u referrerId =
     (case candidate_referrer referrerId (uplineId u) of
        None \<Rightarrow> None
      | Some rid \<Rightarrow>
         (case find_user st rid of
            None \<Rightarrow> None
          | Some referrer \<Rightarrow>
             (case newest_first
                     (filter (\<lambda>p. userId p = Some (user_id referrer)) (trianglePositions st)) of
                [] \<Rightarrow> None
              | rp # _ \<Rightarrow>
                 (case find_triangle st (triangleId rp) of
                    None \<Rightarrow> None
                  | Some tri \<Rightarrow>
                     if planType tri = plan u \<and> \<not> isComplete tri
                     then (case find_open_position st (triangleId rp) of
                             None \<Rightarrow> None
                           | Some availablePosition \<Rightarrow> Some tri)
                     else None))))"

text \<open>Steps 1 to 3 (lines 66 to 124): the target triangle and the store holding it.\<close>

definition select_target :: "'m store \<Rightarrow> 'm user \<Rightarrow> string option \<Rightarrow> triangle \<times> 'm store" where
  "select_target st u referrerId =
     (case referrer_triangle st u referrerId of
        Some tri \<Rightarrow> (tri, st)
      | None \<Rightarrow>
         (case find_oldest_open_triangle st (plan u) of
            Some tri \<Rightarrow> (tri, st)
          | None \<Rightarrow> createTriangle st (plan u)))"

definition count_filled :: "'m store \<Rightarrow> nat \<Rightarrow> nat" where
  "count_filled st t =
     length (filter (\<lambda>p. triangleId p = t \<and> userId p \<noteq> None) (trianglePositions st))"

text \<open>
  Lines 56 to 154, the function up to the test of \<open>filledPositions\<close>: the slot found, the
  target triangle, the count of filled positions read back, and the store after the occupant
  write.
\<close>

definition place_user ::
  "'m store \<Rightarrow> string \<Rightarrow> string option \<Rightarrow> error + (tposition \<times> triangle \<times> nat \<times> 'm store)" where
  "place_user st uid referrerId =
     (case find_user st uid of
        None \<Rightarrow> Inl UserNotFound
      | Some u \<Rightarrow>
         (let (targetTriangle, st1) = select_target st u referrerId
          in case find_open_position st1 (tri_id targetTriangle) of
               None \<Rightarrow> Inl NoAvailablePositions
             | Some availablePosition \<Rightarrow>
                (case update_position (\<lambda>p. pos_id p = pos_id availablePosition) (Some uid) st1 of
                   Inl err \<Rightarrow> Inl err
                 | Inr st2 \<Rightarrow>
                    Inr (availablePosition, targetTriangle,
                         count_filled st2 (tri_id targetTriangle), st2))))"

definition assignUserToTriangle ::
  "'m::plus store \<Rightarrow> string \<Rightarrow> string option \<Rightarrow> error + (tposition \<times> 'm store)" where
  "assignUserToTriangle st uid referrerId =
     (case place_user st uid referrerId of
        Inl err \<Rightarrow> Inl err
      | Inr (availablePosition, targetTriangle, filledPositions, st2) \<Rightarrow>
         if filledPositions = 15
         then (case handleTriangleCompletion st2 (tri_id targetTriangle) of
                 Inl err \<Rightarrow> Inl err
               | Inr st3 \<Rightarrow> Inr (availablePosition, st3))
         else Inr (availablePosition, st2))"

section \<open>findReferrer\<close>

text \<open>
  Strings are lists of characters; \<open>toLowerCase\<close> is modelled on the ASCII letters (user
  identifiers are hexadecimal strings).
\<close>

definition isValidObjectId :: "string \<Rightarrow> bool" where
  "isValidObjectId s = (length s = 24 \<and> list_all (\<lambda>c. c \<in> set ''0123456789abcdefABCDEF'') s)"

definition lower_char :: "char \<Rightarrow> char" where
  "lower_char c =
     (case map_of (zip ''ABCDEFGHIJKLMNOPQRSTUVWXYZ'' ''abcdefghijklmnopqrstuvwxyz'') c of
        None \<Rightarrow> c
      | Some d \<Rightarrow> d)"

definition toLowerCase :: "string \<Rightarrow> string" where
  "toLowerCase s = map lower_char s"

definition endsWith :: "string \<Rightarrow> string \<Rightarrow> bool" where
  "endsWith s t = (length t \<le> length s \<and> drop (length s - length t) s = t)"

definition select_fields :: "'m user \<Rightarrow> referrer_sel" where
  "select_fields u = \<lparr>sel_id = user_id u, sel_username = username u, sel_plan = plan u\<rparr>"

definition by_id :: "'m user list \<Rightarrow> string \<Rightarrow> referrer_sel option" where
  "by_id us tok =
     (if isValidObjectId tok then map_option select_fields (find (\<lambda>u. user_id u = tok) us)
      else None)"

definition by_username :: "'m user list \<Rightarrow> string \<Rightarrow> referrer_sel option" where
  "by_username us tok = map_option select_fields (find (\<lambda>u. username u = tok) us)"

definition by_referralCode :: "'m user list \<Rightarrow> string \<Rightarrow> referrer_sel option" where
  "by_referralCode us tok = map_option select_fields (find (\<lambda>u. referralCode u = Some tok) us)"

definition by_suffix :: "'m user list \<Rightarrow> string \<Rightarrow> referrer_sel option" where
  "by_suffix us tok =
     find (\<lambda>r. endsWith (toLowerCase (sel_id r)) (toLowerCase tok)) (map select_fields us)"

definition findReferrer :: "'m user list \<Rightarrow> string \<Rightarrow> referrer_sel option" where
  "findReferrer us referralCode' =
     (let referrer = by_id us referralCode';
          referrer = (if referrer = None then by_username us referralCode' else referrer);
          referrer = (if referrer = None then by_referralCode us referralCode' else referrer);
          referrer = (if referrer = None \<and> length referralCode' \<ge> 3
                      then by_suffix us referralCode' else referrer)
      in referrer)"

section \<open>Observations and invariants used in the statements\<close>

text \<open>
  The identifiers the database hands out are fresh: every identifier already in the store is
  below the clock, including the triangle identifiers that position rows refer to.
\<close>

definition fresh :: "'m store \<Rightarrow> bool" where
  "fresh st \<longleftrightarrow>
     list_all (\<lambda>x. tri_id x < clock st) (triangles st)
     \<and> list_all (\<lambda>p. pos_id p < clock st \<and> triangleId p < clock st) (trianglePositions st)"

text \<open>
  A triangle is well formed when its rows, in the order of level and position, carry exactly
  the levels, positions and keys of \<open>TRIANGLE_STRUCTURE\<close>.
\<close>

definition well_formed :: "'m store \<Rightarrow> nat \<Rightarrow> bool" where
  "well_formed st t \<longleftrightarrow>
     map (\<lambda>p. (level p, position p, positionKey p))
       (by_level_position (filter (\<lambda>p. triangleId p = t) (trianglePositions st)))
     = TRIANGLE_STRUCTURE"

definition structure_keys :: "string list" where
  "structure_keys = map (\<lambda>(l, n, k). k) TRIANGLE_STRUCTURE"

text \<open>
  What a slot holds: the \<open>userId\<close> stored in the row of triangle \<open>t\<close> with key \<open>k\<close>, and the
  user that the relation \<open>user\<close> of that row loads.
\<close>

definition occupant :: "'m store \<Rightarrow> nat \<Rightarrow> string \<Rightarrow> string option" where
  "occupant st t k =
     (case find (\<lambda>p. triangleId p = t \<and> positionKey p = k) (trianglePositions st) of
        None \<Rightarrow> None
      | Some p \<Rightarrow> userId p)"

definition occupant_user :: "'m store \<Rightarrow> nat \<Rightarrow> string \<Rightarrow> 'm user option" where
  "occupant_user st t k =
     (case find (\<lambda>p. triangleId p = t \<and> positionKey p = k) (trianglePositions st) of
        None \<Rightarrow> None
      | Some p \<Rightarrow> position_user st p)"

text \<open>
  A most recently created position of the user \<open>rid\<close>, and a triangle that can take the user
  \<open>u\<close>: it has the user's plan, is not complete and has an open slot.
\<close>

definition newest_position :: "'m store \<Rightarrow> string \<Rightarrow> tposition \<Rightarrow> bool" where
  "newest_position st rid rp \<longleftrightarrow>
     rp \<in> set (trianglePositions st) \<and> userId rp = Some rid
     \<and> list_all (\<lambda>q. userId q = Some rid \<longrightarrow> pos_createdAt q \<le> pos_createdAt rp)
           (trianglePositions st)"

definition accepts :: "'m store \<Rightarrow> 'm user \<Rightarrow> triangle \<Rightarrow> bool" where
  "accepts st u tri \<longleftrightarrow>
     planType tri = plan u \<and> \<not> isComplete tri
     \<and> list_ex (\<lambda>p. triangleId p = tri_id tri \<and> userId p = None) (trianglePositions st)"

text \<open>
  \<open>newest_in\<close>: \<open>rp\<close> is a most recently created position of \<open>rid\<close>, and every position of
  \<open>rid\<close> created at the same time lies in the same triangle. \<open>referrer_offers\<close>: the user
  \<open>rid\<close> exists and some most recently created position of \<open>rid\<close> lies in a triangle that can
  take the user \<open>u\<close>.
\<close>

definition newest_in :: "'m store \<Rightarrow> string \<Rightarrow> tposition \<Rightarrow> bool" where
  "newest_in st rid rp \<longleftrightarrow>
     rp \<in> set (trianglePositions st) \<and> userId rp = Some rid
     \<and> list_all (\<lambda>q. userId q = Some rid \<longrightarrow>
                     pos_createdAt q < pos_createdAt rp
                     \<or> (pos_createdAt q = pos_createdAt rp \<and> triangleId q = triangleId rp))
           (trianglePositions st)"

definition referrer_offers :: "'m store \<Rightarrow> 'm user \<Rightarrow> string \<Rightarrow> bool" where
  "referrer_offers st u rid =
     (case find_user st rid of
        None \<Rightarrow> False
      | Some ref \<Rightarrow>
         list_ex (\<lambda>rp. newest_position st rid rp \<and>
                        (case find_triangle st (triangleId rp) of
                           None \<Rightarrow> False
                         | Some tri \<Rightarrow> accepts st u tri))
                 (trianglePositions st))"

text \<open>No row of triangle \<open>t\<close> at level \<open>l\<close>, position \<open>n\<close> loads a user.\<close>

definition unoccupied :: "'m store \<Rightarrow> nat \<Rightarrow> nat \<Rightarrow> nat \<Rightarrow> bool" where
  "unoccupied st t l n =
     list_all (\<lambda>p. position_user st p = None)
       (filter (\<lambda>p. triangleId p = t \<and> level p = l \<and> position p = n) (trianglePositions st))"

text \<open>Two stores that differ in their position rows at most.\<close>

definition only_positions :: "'m store \<Rightarrow> 'm store \<Rightarrow> bool" where
  "only_positions st st' \<longleftrightarrow>
     users st' = users st \<and> triangles st' = triangles st \<and> plans st' = plans st
     \<and> transactions st' = transactions st \<and> clock st' = clock st"

text \<open>The transaction row and the user update written by \<open>handleTriangleCompletion\<close>.\<close>

definition withdrawal :: "'m user \<Rightarrow> 'm \<Rightarrow> nat \<Rightarrow> 'm transaction" where
  "withdrawal u amount now =
     \<lparr>tx_userId = user_id u, tx_type = ''WITHDRAWAL'', tx_amount = amount,
      tx_status = ''PENDING'', tx_stamp = now,
      tx_description = ''Automatic withdrawal - Triangle completion''\<rparr>"

definition credit :: "'m::plus \<Rightarrow> 'm user \<Rightarrow> 'm user" where
  "credit amount u = u\<lparr>balance := balance u + amount, totalEarned := totalEarned u + amount\<rparr>"

text \<open>
  The rows of a triangle created at clock value \<open>c\<close>, with the occupants given by a function
  of the key. \<open>new_positions\<close> is the case of no occupant.
\<close>

fun filled_positions ::
  "nat \<Rightarrow> nat \<Rightarrow> nat \<Rightarrow> (string \<Rightarrow> string option) \<Rightarrow> (nat \<times> nat \<times> string) list \<Rightarrow> tposition list" where
  "filled_positions t ts i occ [] = []"
| "filled_positions t ts i occ ((l, n, k) # rest) =
     \<lparr>pos_id = i, triangleId = t, level = l, position = n, positionKey = k,
      userId = occ k, pos_createdAt = ts\<rparr> # filled_positions t ts (Suc i) occ rest"

definition triangle_rows :: "nat \<Rightarrow> (string \<Rightarrow> string option) \<Rightarrow> tposition list" where
  "triangle_rows c occ = filled_positions c (Suc c) (Suc c) occ TRIANGLE_STRUCTURE"

definition new_triangle :: "nat \<Rightarrow> string \<Rightarrow> triangle" where
  "new_triangle c pl = \<lparr>tri_id = c, planType = pl, isComplete = False, completedAt = None,
                        payoutProcessed = False, tri_createdAt = c\<rparr>"

text \<open>Rows that neither belong to the triangle created at \<open>c\<close> nor carry one of its row identifiers.\<close>

definition foreign :: "nat \<Rightarrow> tposition list \<Rightarrow> bool" where
  "foreign c ps \<longleftrightarrow>
     list_all (\<lambda>p. triangleId p \<noteq> c \<and> \<not> (c < pos_id p \<and> pos_id p \<le> c + 15)) ps"

text \<open>
  The user that \<open>positions.find(p => p.positionKey === oldKey)?.user\<close> yields on the rows read
  by \<open>cycleTriangle\<close>, and the occupants of a successor triangle after the loop over a
  promotion map.
\<close>

definition snap_user :: "(tposition \<times> 'm user option) list \<Rightarrow> string \<Rightarrow> 'm user option" where
  "snap_user snap k =
     (case find (\<lambda>(p, u). positionKey p = k) snap of None \<Rightarrow> None | Some (p, u) \<Rightarrow> u)"

definition promoted ::
  "(tposition \<times> 'm user option) list \<Rightarrow> (string \<times> string) list \<Rightarrow>
     (string \<Rightarrow> string option) \<Rightarrow> string \<Rightarrow> string option" where
  "promoted snap es occ =
     fold (\<lambda>(k, k') f. f(k' := (case snap_user snap k of None \<Rightarrow> f k' | Some u \<Rightarrow> Some (user_id u))))
       es occ"

definition successor_rows ::
  "(tposition \<times> 'm user option) list \<Rightarrow> (string \<times> string) list \<Rightarrow> 'm user \<Rightarrow> string \<Rightarrow> string option" where
  "successor_rows snap es a = promoted snap es ((\<lambda>_. None)(''A'' := Some (user_id a)))"

text \<open>The occupants of a triangle after the users \<open>done\<close> were seated one after another.\<close>

definition seated :: "string list \<Rightarrow> string \<Rightarrow> string option" where
  "seated done = map_of (zip structure_keys done)"

text \<open>
  Placing a list of users one after another, each without a referrer argument. Every call is
  logged with the position it returns and with the value of \<open>filledPositions\<close> it reads: the
  call runs \<open>handleTriangleCompletion\<close> exactly when that value is 15.
\<close>

fun assign_each ::
  "'m::plus store \<Rightarrow> string list \<Rightarrow> error + ((tposition \<times> nat) list \<times> 'm store)" where
  "assign_each st [] = Inr ([], st)"
| "assign_each st (uid # uids) =
     (case place_user st uid None of
        Inl err \<Rightarrow> Inl err
      | Inr (p0, t, filledPositions, st0) \<Rightarrow>
         (case assignUserToTriangle st uid None of
            Inl err \<Rightarrow> Inl err
          | Inr (p, st1) \<Rightarrow>
             (case assign_each st1 uids of
                Inl err \<Rightarrow> Inl err
              | Inr (log, st2) \<Rightarrow> Inr ((p, filledPositions) # log, st2))))"

text \<open>
  The setting of the fill scenario: no triangle of the plan can take a user, every user placed
  exists, has the plan and names no upline; and the stores passed through while the triangle
  created at the clock value of \<open>st0\<close> fills up.
\<close>

definition no_open_triangle :: "'m store \<Rightarrow> string \<Rightarrow> bool" where
  "no_open_triangle st pl \<longleftrightarrow>
     list_all (\<lambda>t. \<not> (planType t = pl \<and> \<not> isComplete t \<and>
                       list_ex (\<lambda>p. triangleId p = tri_id t \<and> userId p = None)
                               (trianglePositions st)))
       (triangles st)"

definition newcomer :: "'m store \<Rightarrow> string \<Rightarrow> string \<Rightarrow> bool" where
  "newcomer st pl uid =
     (case find_user st uid of
        None \<Rightarrow> False
      | Some u \<Rightarrow> plan u = pl \<and> \<not> truthy (uplineId u))"

definition filling :: "'m store \<Rightarrow> string \<Rightarrow> string list \<Rightarrow> 'm store \<Rightarrow> bool" where
  "filling st0 pl done st \<longleftrightarrow>
     users st = users st0 \<and> plans st = plans st0 \<and> transactions st = transactions st0
     \<and> triangles st = triangles st0 @ [new_triangle (clock st0) pl]
     \<and> trianglePositions st = trianglePositions st0 @ triangle_rows (clock st0) (seated done)
     \<and> clock st = clock st0 + 16"

section \<open>Example data\<close>

definition ex_token :: string where
  "ex_token = ''507f1f77bcf86cd799439011''"

definition ex_alice :: "int user" where
  "ex_alice = \<lparr>user_id = ''507f1f77bcf86cd799439011'', username = ''alice'',
               referralCode = Some ''REFA'', plan = ''BASIC'', uplineId = None,
               balance = 0, totalEarned = 0\<rparr>"

definition ex_bob :: "int user" where
  "ex_bob = \<lparr>user_id = ''507f1f77bcf86cd7994390AB'', username = ''507f1f77bcf86cd799439011'',
             referralCode = Some ''REFB'', plan = ''BASIC'', uplineId = None,
             balance = 0, totalEarned = 0\<rparr>"

definition ex_carol :: "int user" where
  "ex_carol = \<lparr>user_id = ''507f1f77bcf86cd7994390cd'', username = ''carol'',
               referralCode = Some ''507f1f77bcf86cd799439011'', plan = ''BASIC'',
               uplineId = None, balance = 0, totalEarned = 0\<rparr>"

lemmas ex_user_defs = ex_token_def ex_alice_def ex_bob_def ex_carol_def

lemmas referrer_defs =
  findReferrer_def by_id_def by_username_def by_referralCode_def by_suffix_def
  isValidObjectId_def select_fields_def endsWith_def toLowerCase_def lower_char_def

text \<open>
  Fifteen members of the plan \<open>BASIC\<close> and a store in which they fill the triangle \<open>0\<close> in
  the order of their identifiers.
\<close>

definition ex_ids :: "string list" where
  "ex_ids = [''u01'', ''u02'', ''u03'', ''u04'', ''u05'', ''u06'', ''u07'', ''u08'',
             ''u09'', ''u10'', ''u11'', ''u12'', ''u13'', ''u14'', ''u15'']"

definition ex_member :: "string \<Rightarrow> int user" where
  "ex_member i = \<lparr>user_id = i, username = i, referralCode = None, plan = ''BASIC'',
                  uplineId = None, balance = 0, totalEarned = 0\<rparr>"

definition ex_triangle :: triangle where
  "ex_triangle = \<lparr>tri_id = 0, planType = ''BASIC'', isComplete = False, completedAt = None,
                  payoutProcessed = False, tri_createdAt = 0\<rparr>"

definition ex_plan :: "int plan_row" where
  "ex_plan = \<lparr>plan_name = ''BASIC'', payout = 100\<rparr>"

definition ex_full :: "int store" where
  "ex_full = \<lparr>users = map ex_member ex_ids, triangles = [ex_triangle],
              trianglePositions = triangle_rows 0 (map_of (zip structure_keys ex_ids)),
              plans = [ex_plan], transactions = [], clock = 16\<rparr>"

text \<open>The same store after the member in slot \<open>AB2\<close> was deleted, and without any plan row.\<close>

definition ex_orphan :: "int store" where
  "ex_orphan = ex_full\<lparr>users := filter (\<lambda>u. user_id u \<noteq> ''u03'') (users ex_full)\<rparr>"

definition ex_noplan :: "int store" where
  "ex_noplan = ex_full\<lparr>plans := []\<rparr>"

text \<open>
  The members before any triangle exists, and with all but the last of them seated in the
  triangle \<open>0\<close>.
\<close>

definition ex_start :: "int store" where
  "ex_start = \<lparr>users = map ex_member ex_ids, triangles = [], trianglePositions = [],
               plans = [ex_plan], transactions = [], clock = 0\<rparr>"

definition ex_fourteen :: "int store" where
  "ex_fourteen = ex_full\<lparr>trianglePositions := triangle_rows 0 (seated (take 14 ex_ids))\<rparr>"

text \<open>
  The store after the first placement. A member \<open>u05\<close> whose stored upline is \<open>u02\<close>, and
  stores with three open triangles, created in the order \<open>0\<close>, \<open>16\<close>, \<open>32\<close>, whose first
  slots hold the given users: in \<open>ex_seats [''u01''] [''u02''] [''u04'']\<close> the member \<open>u01\<close>
  sits in the oldest triangle, the upline \<open>u02\<close> in the second and \<open>u04\<close> in the newest.
\<close>

definition ex_one :: "int store" where
  "ex_one = ex_full\<lparr>trianglePositions := triangle_rows 0 (seated [''u01''])\<rparr>"

definition ex_referred :: "int user" where
  "ex_referred = (ex_member ''u05'')\<lparr>uplineId := Some ''u02''\<rparr>"

definition ex_seats :: "string list \<Rightarrow> string list \<Rightarrow> string list \<Rightarrow> int store" where
  "ex_seats a b c =
     \<lparr>users = [ex_member ''u01'', ex_member ''u02'', ex_member ''u04'', ex_referred],
      triangles = [ex_triangle, new_triangle 16 ''BASIC'', new_triangle 32 ''BASIC''],
      trianglePositions = triangle_rows 0 (seated a) @ triangle_rows 16 (seated b)
                          @ triangle_rows 32 (seated c),
      plans = [ex_plan], transactions = [], clock = 48\<rparr>"

text \<open>The store left by the fifteenth placement into \<open>ex_fourteen\<close>.\<close>

definition ex_cycled :: "int store" where
  "ex_cycled =
     \<lparr>users = (ex_member ''u01'')\<lparr>balance := 100, totalEarned := 100\<rparr> # map ex_member (tl ex_ids),
      triangles = [new_triangle 16 ''BASIC'', new_triangle 32 ''BASIC''],
      trianglePositions =
        triangle_rows 16 (seated [''u02'', ''u04'', ''u05'', ''u08'', ''u09'', ''u10'', ''u11''])
        @ triangle_rows 32 (seated [''u03'', ''u06'', ''u07'', ''u12'', ''u13'', ''u14'', ''u15'']),
      plans = [ex_plan],
      transactions = [withdrawal (ex_member ''u01'') 100 16],
      clock = 48\<rparr>"

lemmas engine_defs =
  assignUserToTriangle_def place_user_def select_target_def referrer_triangle_def
  candidate_referrer_def truthy_def find_oldest_open_triangle_def find_open_position_def
  by_level_position_def newest_first_def update_position_def update_rows_def count_filled_def
  handleTriangleCompletion_def mark_complete_def completion_payout_def cycleTriangle_def
  load_positions_def slot_user_def split_triangle_def createTriangle_def promote_def
  delete_triangle_def find_user_def find_triangle_def find_plan_def position_user_def
  ab1SubtreeMap_def ab2SubtreeMap_def seated_def Let_def

lemmas ex_store_defs = ex_full_def ex_ids_def ex_member_def ex_triangle_def ex_plan_def
  triangle_rows_def structure_keys_def TRIANGLE_STRUCTURE_def ex_orphan_def ex_noplan_def
  ex_start_def ex_fourteen_def ex_one_def ex_referred_def ex_seats_def ex_cycled_def
  new_triangle_def
  withdrawal_def

section \<open>Referrer resolution\<close>

lemma endsWith_suffix: "endsWith s t \<longleftrightarrow> suffix t s"
  unfolding endsWith_def
  by (metis suffix_drop suffix_length_le suffix_def append_eq_conv_conj diff_add_inverse2
      length_append)

lemma find_map_sel: "find P (map f xs) = map_option f (find (\<lambda>x. P (f x)) xs)"
  by (induction xs) auto

lemma by_id_None_iff:
  "by_id us tok = None \<longleftrightarrow> \<not> (isValidObjectId tok \<and> (\<exists>u\<in>set us. user_id u = tok))"
  by (auto simp: by_id_def find_None_iff)

lemma by_username_None_iff: "by_username us tok = None \<longleftrightarrow> (\<forall>u\<in>set us. username u \<noteq> tok)"
  by (auto simp: by_username_def find_None_iff)

lemma by_referralCode_None_iff:
  "by_referralCode us tok = None \<longleftrightarrow> (\<forall>u\<in>set us. referralCode u \<noteq> Some tok)"
  by (auto simp: by_referralCode_def find_None_iff)

lemma by_suffix_eq:
  "by_suffix us tok =
     map_option select_fields
       (find (\<lambda>u. suffix (toLowerCase tok) (toLowerCase (user_id u))) us)"
  by (simp add: by_suffix_def find_map_sel endsWith_suffix select_fields_def)

text \<open>
  C7: \<open>findReferrer\<close> returns the result of the first strategy that matches, in the order
  identity (tried only for a syntactically valid identity), username, referral code, suffix
  fallback. A token that is at once the identity of \<open>a\<close>, the username of another user and the
  referral code of a third resolves to \<open>a\<close>.
\<close>

theorem findReferrer_precedence:
  "(isValidObjectId tok \<and> find (\<lambda>u. user_id u = tok) us = Some a
      \<longrightarrow> findReferrer us tok = Some (select_fields a))
   \<and> (\<not> (isValidObjectId tok \<and> (\<exists>u\<in>set us. user_id u = tok))
      \<and> find (\<lambda>u. username u = tok) us = Some b
      \<longrightarrow> findReferrer us tok = Some (select_fields b))
   \<and> (\<not> (isValidObjectId tok \<and> (\<exists>u\<in>set us. user_id u = tok))
      \<and> (\<forall>u\<in>set us. username u \<noteq> tok)
      \<and> find (\<lambda>u. referralCode u = Some tok) us = Some c
      \<longrightarrow> findReferrer us tok = Some (select_fields c))
   \<and> (\<not> (isValidObjectId tok \<and> (\<exists>u\<in>set us. user_id u = tok))
      \<and> (\<forall>u\<in>set us. username u \<noteq> tok)
      \<and> (\<forall>u\<in>set us. referralCode u \<noteq> Some tok)
      \<longrightarrow> findReferrer us tok = (if 3 \<le> length tok then by_suffix us tok else None))"
proof (intro conjI impI)
  assume "isValidObjectId tok \<and> find (\<lambda>u. user_id u = tok) us = Some a"
  then show "findReferrer us tok = Some (select_fields a)"
    by (simp add: findReferrer_def by_id_def)
next
  assume h: "\<not> (isValidObjectId tok \<and> (\<exists>u\<in>set us. user_id u = tok))
      \<and> find (\<lambda>u. username u = tok) us = Some b"
  then have "by_id us tok = None" by (simp add: by_id_None_iff)
  with h show "findReferrer us tok = Some (select_fields b)"
    by (simp add: findReferrer_def by_username_def)
next
  assume h: "\<not> (isValidObjectId tok \<and> (\<exists>u\<in>set us. user_id u = tok))
      \<and> (\<forall>u\<in>set us. username u \<noteq> tok)
      \<and> find (\<lambda>u. referralCode u = Some tok) us = Some c"
  then have "by_id us tok = None" "by_username us tok = None"
    by (simp_all add: by_id_None_iff by_username_None_iff)
  with h show "findReferrer us tok = Some (select_fields c)"
    by (simp add: findReferrer_def by_referralCode_def)
next
  assume h: "\<not> (isValidObjectId tok \<and> (\<exists>u\<in>set us. user_id u = tok))
      \<and> (\<forall>u\<in>set us. username u \<noteq> tok)
      \<and> (\<forall>u\<in>set us. referralCode u \<noteq> Some tok)"
  then have "by_id us tok = None" "by_username us tok = None" "by_referralCode us tok = None"
    by (simp_all add: by_id_None_iff by_username_None_iff by_referralCode_None_iff)
  then show "findReferrer us tok = (if 3 \<le> length tok then by_suffix us tok else None)"
    by (simp add: findReferrer_def)
qed

text \<open>
  The token \<open>ex_token\<close> is the identity of alice, the username of bob and the referral code of
  carol: alice is returned. Without alice the username wins, without bob the referral code, and
  the token \<open>90ab\<close> matches nothing exactly and falls through to the suffix scan.
\<close>

theorem findReferrer_precedence_witness:
  "(isValidObjectId ex_token
      \<and> find (\<lambda>u. user_id u = ex_token) [ex_carol, ex_bob, ex_alice] = Some ex_alice)
   \<and> findReferrer [ex_carol, ex_bob, ex_alice] ex_token = Some (select_fields ex_alice)
   \<and> (\<not> (isValidObjectId ex_token \<and> (\<exists>u\<in>set [ex_carol, ex_bob]. user_id u = ex_token))
      \<and> find (\<lambda>u. username u = ex_token) [ex_carol, ex_bob] = Some ex_bob)
   \<and> findReferrer [ex_carol, ex_bob] ex_token = Some (select_fields ex_bob)
   \<and> (\<not> (isValidObjectId ex_token \<and> (\<exists>u\<in>set [ex_carol]. user_id u = ex_token))
      \<and> \<not> (\<exists>u\<in>set [ex_carol]. username u = ex_token)
      \<and> find (\<lambda>u. referralCode u = Some ex_token) [ex_carol] = Some ex_carol)
   \<and> findReferrer [ex_carol] ex_token = Some (select_fields ex_carol)
   \<and> (\<not> (isValidObjectId ''90ab''
           \<and> (\<exists>u\<in>set [ex_carol, ex_bob, ex_alice]. user_id u = ''90ab''))
      \<and> \<not> (\<exists>u\<in>set [ex_carol, ex_bob, ex_alice]. username u = ''90ab'')
      \<and> \<not> (\<exists>u\<in>set [ex_carol, ex_bob, ex_alice]. referralCode u = Some ''90ab''))
   \<and> findReferrer [ex_carol, ex_bob, ex_alice] ''90ab''
       = (if 3 \<le> length ''90ab'' then by_suffix [ex_carol, ex_bob, ex_alice] ''90ab'' else None)"
proof -
  have h1: "isValidObjectId ex_token
      \<and> find (\<lambda>u. user_id u = ex_token) [ex_carol, ex_bob, ex_alice] = Some ex_alice"
    by (simp add: ex_user_defs isValidObjectId_def)
  have h2: "\<not> (isValidObjectId ex_token \<and> (\<exists>u\<in>set [ex_carol, ex_bob]. user_id u = ex_token))
      \<and> find (\<lambda>u. username u = ex_token) [ex_carol, ex_bob] = Some ex_bob"
    by (simp add: ex_user_defs)
  have h3: "\<not> (isValidObjectId ex_token \<and> (\<exists>u\<in>set [ex_carol]. user_id u = ex_token))
      \<and> (\<forall>u\<in>set [ex_carol]. username u \<noteq> ex_token)
      \<and> find (\<lambda>u. referralCode u = Some ex_token) [ex_carol] = Some ex_carol"
    by (simp add: ex_user_defs)
  have h4: "\<not> (isValidObjectId ''90ab''
           \<and> (\<exists>u\<in>set [ex_carol, ex_bob, ex_alice]. user_id u = ''90ab''))
      \<and> (\<forall>u\<in>set [ex_carol, ex_bob, ex_alice]. username u \<noteq> ''90ab'')
      \<and> (\<forall>u\<in>set [ex_carol, ex_bob, ex_alice]. referralCode u \<noteq> Some ''90ab'')"
    by (simp add: ex_user_defs)
  note p = findReferrer_precedence
  from h1 p [of ex_token "[ex_carol, ex_bob, ex_alice]" ex_alice]
  have c1: "findReferrer [ex_carol, ex_bob, ex_alice] ex_token = Some (select_fields ex_alice)"
    by blast
  from h2 p [of ex_token "[ex_carol, ex_bob]" _ ex_bob]
  have c2: "findReferrer [ex_carol, ex_bob] ex_token = Some (select_fields ex_bob)"
    by blast
  from h3 p [of ex_token "[ex_carol]" _ _ ex_carol]
  have c3: "findReferrer [ex_carol] ex_token = Some (select_fields ex_carol)"
    by blast
  from h4 p [of "''90ab''" "[ex_carol, ex_bob, ex_alice]"]
  have c4: "findReferrer [ex_carol, ex_bob, ex_alice] ''90ab''
       = (if 3 \<le> length ''90ab'' then by_suffix [ex_carol, ex_bob, ex_alice] ''90ab'' else None)"
    by blast
  from h1 h2 h3 h4 c1 c2 c3 c4 show ?thesis by blast
qed

text \<open>
  C8, as amended: when the three exact strategies fail, a token of at least three characters
  resolves to the first user, in table order, whose identity ends with the token, both taken
  in lower case, and to none when there is no such user; a shorter token resolves to none
  without a scan.
\<close>

theorem findReferrer_suffix_fallback:
  assumes "\<not> (isValidObjectId tok \<and> (\<exists>u\<in>set us. user_id u = tok))"
    and "\<forall>u\<in>set us. username u \<noteq> tok"
    and "\<forall>u\<in>set us. referralCode u \<noteq> Some tok"
  shows "findReferrer us tok =
           (if 3 \<le> length tok
            then map_option select_fields
                   (find (\<lambda>u. suffix (toLowerCase tok) (toLowerCase (user_id u))) us)
            else None)"
proof -
  from assms have "by_id us tok = None" "by_username us tok = None"
      "by_referralCode us tok = None"
    by (simp_all add: by_id_None_iff by_username_None_iff by_referralCode_None_iff)
  then show ?thesis
    by (simp add: findReferrer_def by_suffix_eq)
qed

theorem findReferrer_suffix_fallback_witness:
  "\<not> (isValidObjectId ''90ab'' \<and> (\<exists>u\<in>set [ex_carol, ex_bob, ex_alice]. user_id u = ''90ab''))
   \<and> \<not> (\<exists>u\<in>set [ex_carol, ex_bob, ex_alice]. username u = ''90ab'')
   \<and> \<not> (\<exists>u\<in>set [ex_carol, ex_bob, ex_alice]. referralCode u = Some ''90ab'')
   \<and> findReferrer [ex_carol, ex_bob, ex_alice] ''90ab'' = Some (select_fields ex_bob)"
proof -
  have h: "\<not> (isValidObjectId ''90ab''
              \<and> (\<exists>u\<in>set [ex_carol, ex_bob, ex_alice]. user_id u = ''90ab''))"
    "\<forall>u\<in>set [ex_carol, ex_bob, ex_alice]. username u \<noteq> ''90ab''"
    "\<forall>u\<in>set [ex_carol, ex_bob, ex_alice]. referralCode u \<noteq> Some ''90ab''"
    by (simp_all add: ex_user_defs)
  have s: "find (\<lambda>u. suffix (toLowerCase ''90ab'') (toLowerCase (user_id u)))
             [ex_carol, ex_bob, ex_alice] = Some ex_bob"
    by (simp add: endsWith_suffix [symmetric] endsWith_def toLowerCase_def lower_char_def
        ex_user_defs)
  from findReferrer_suffix_fallback [OF h]
  have "findReferrer [ex_carol, ex_bob, ex_alice] ''90ab'' = Some (select_fields ex_bob)"
    unfolding s by simp
  with h show ?thesis by blast
qed

text \<open>
  Without the bound on the length, C8 fails on the token \<open>ab\<close>: no exact strategy matches
  it, the scan would find bob, whose identity ends with it, yet nothing is returned.
\<close>

theorem findReferrer_short_token_counterexample:
  "by_id [ex_carol, ex_bob, ex_alice] ''ab'' = None
   \<and> by_username [ex_carol, ex_bob, ex_alice] ''ab'' = None
   \<and> by_referralCode [ex_carol, ex_bob, ex_alice] ''ab'' = None
   \<and> by_suffix [ex_carol, ex_bob, ex_alice] ''ab'' = Some (select_fields ex_bob)
   \<and> findReferrer [ex_carol, ex_bob, ex_alice] ''ab'' = None"
  by (simp add: referrer_defs ex_user_defs)

lemma set_by_level_position [simp]: "set (by_level_position ps) = set ps"
  by (simp add: by_level_position_def)

lemma by_level_position_Nil [simp]: "by_level_position ps = [] \<longleftrightarrow> ps = []"
  by (metis set_by_level_position set_empty)

lemma load_positions_Nil:
  "load_positions st t = [] \<longleftrightarrow> filter (\<lambda>p. triangleId p = t) (trianglePositions st) = []"
  by (simp add: load_positions_def)

lemma load_positions_member:
  "(p, u) \<in> set (load_positions st t) \<Longrightarrow>
     p \<in> set (trianglePositions st) \<and> triangleId p = t \<and> u = position_user st p"
  by (auto simp: load_positions_def)

lemma load_positions_hd:
  "load_positions st t = (p, u) # rest \<Longrightarrow> triangleId p = t"
  using load_positions_member [of p u st t] by simp

lemma slot_user_unoccupied:
  assumes "unoccupied st t l n"
  shows "slot_user (load_positions st t) l n = None"
proof (cases "find (\<lambda>(p, u). level p = l \<and> position p = n) (load_positions st t)")
  case None
  then show ?thesis by (simp add: slot_user_def)
next
  case (Some pu)
  obtain p u where pu: "pu = (p, u)" by (cases pu)
  from Some pu have "(p, u) \<in> set (load_positions st t)" "level p = l \<and> position p = n"
    by (auto simp: find_Some_iff in_set_conv_nth)
  with load_positions_member [of p u st t] assms have "u = None"
    by (auto simp: unoccupied_def list_all_iff)
  with Some pu show ?thesis by (simp add: slot_user_def)
qed

lemma find_triangle_list_ex:
  "find_triangle st t \<noteq> None \<longleftrightarrow> list_ex (\<lambda>x. tri_id x = t) (triangles st)"
  by (auto simp: find_triangle_def find_None_iff list_ex_iff)

text \<open>
  C4: when the triangle exists, has rows, and the slot at level 2, position 0 (\<open>AB1\<close>) or the
  slot at level 2, position 1 (\<open>AB2\<close>) loads no user, \<open>cycleTriangle\<close> creates no triangle
  and leaves the store without the triangle and without any of its rows; nothing else changes.
\<close>

theorem cycle_without_split:
  assumes tri: "find_triangle st t \<noteq> None"
    and rows: "list_ex (\<lambda>p. triangleId p = t) (trianglePositions st)"
    and empty: "unoccupied st t 2 0 \<or> unoccupied st t 2 1"
  shows "cycleTriangle st t =
           Inr (st\<lparr>trianglePositions := filter (\<lambda>p. triangleId p \<noteq> t) (trianglePositions st),
                   triangles := filter (\<lambda>x. tri_id x \<noteq> t) (triangles st)\<rparr>)"
proof -
  from rows have "load_positions st t \<noteq> []"
    by (auto simp: load_positions_Nil list_ex_iff filter_empty_conv)
  then obtain p0 u0 rest where snap: "load_positions st t = (p0, u0) # rest"
    by (cases "load_positions st t") auto
  then have p0: "triangleId p0 = t" by (rule load_positions_hd)
  from tri obtain tri' where tri': "find_triangle st t = Some tri'" by auto
  from empty have "slot_user (load_positions st t) 2 0 = None
      \<or> slot_user (load_positions st t) 2 1 = None"
    using slot_user_unoccupied [of st t 2 0] slot_user_unoccupied [of st t 2 1] by auto
  then have nosplit: "(case (slot_user (load_positions st t) 2 0, slot_user (load_positions st t) 2 1) of
          (Some ab1User, Some ab2User) \<Rightarrow> split_triangle (load_positions st t) tri' ab1User ab2User st
        | _ \<Rightarrow> Inr st) = Inr st"
    by (auto split: option.splits)
  from tri have ex: "list_ex (\<lambda>x. tri_id x = t) (triangles st)"
    by (simp only: find_triangle_list_ex)
  then have del: "delete_triangle t st =
      Inr (st\<lparr>trianglePositions := filter (\<lambda>p. triangleId p \<noteq> t) (trianglePositions st),
              triangles := filter (\<lambda>x. tri_id x \<noteq> t) (triangles st)\<rparr>)"
    by (simp add: delete_triangle_def Let_def)
  have "cycleTriangle st t = delete_triangle t st"
    unfolding cycleTriangle_def Let_def
    using snap p0 tri' nosplit by simp
  with del show ?thesis by simp
qed

text \<open>
  In \<open>ex_orphan\<close> the member recorded in slot \<open>AB2\<close> no longer exists: the full triangle is
  deleted and no successor is created.
\<close>

theorem cycle_without_split_witness:
  "find_triangle ex_orphan 0 \<noteq> None
   \<and> list_ex (\<lambda>p. triangleId p = 0) (trianglePositions ex_orphan)
   \<and> unoccupied ex_orphan 0 2 1
   \<and> cycleTriangle ex_orphan 0 =
         Inr (ex_orphan\<lparr>trianglePositions :=
                          filter (\<lambda>p. triangleId p \<noteq> 0) (trianglePositions ex_orphan),
                        triangles := filter (\<lambda>x. tri_id x \<noteq> 0) (triangles ex_orphan)\<rparr>)
   \<and> filter (\<lambda>x. tri_id x \<noteq> 0) (triangles ex_orphan) = []
   \<and> filter (\<lambda>p. triangleId p \<noteq> 0) (trianglePositions ex_orphan) = []"
proof -
  have h1: "find_triangle ex_orphan 0 \<noteq> None"
    by (simp add: find_triangle_def ex_store_defs)
  have h2: "list_ex (\<lambda>p. triangleId p = 0) (trianglePositions ex_orphan)"
    by (simp add: ex_store_defs)
  have h3: "unoccupied ex_orphan 0 2 1"
    by (simp add: unoccupied_def position_user_def find_user_def ex_store_defs)
  have e: "filter (\<lambda>x. tri_id x \<noteq> 0) (triangles ex_orphan) = []"
    "filter (\<lambda>p. triangleId p \<noteq> 0) (trianglePositions ex_orphan) = []"
    by (simp_all add: ex_store_defs)
  from cycle_without_split [OF h1 h2 disjI2 [OF h3]] h1 h2 h3 e show ?thesis
    by blast
qed

lemma only_positions_refl [simp]: "only_positions st st"
  by (simp add: only_positions_def)

lemma only_positions_trans:
  "only_positions a b \<Longrightarrow> only_positions b c \<Longrightarrow> only_positions a c"
  by (simp add: only_positions_def)

lemma update_rows_Some:
  "list_ex P xs \<Longrightarrow> update_rows P f xs = Some (map (\<lambda>x. if P x then f x else x) xs)"
  by (simp add: update_rows_def)

lemma update_position_Inr:
  "list_ex P (trianglePositions st) \<Longrightarrow>
     update_position P v st =
       Inr (st\<lparr>trianglePositions :=
                 map (\<lambda>p. if P p then p\<lparr>userId := v\<rparr> else p) (trianglePositions st)\<rparr>)"
  by (simp add: update_position_def update_rows_Some)

lemma find_Some_list_ex: "find P xs = Some x \<Longrightarrow> list_ex (\<lambda>y. f y = f x) xs"
  by (auto simp: find_Some_iff list_ex_iff)

lemma promote_ok: "\<exists>st'. promote snap t e st = Inr st' \<and> only_positions st st'"
proof (cases "find (\<lambda>(p, u). positionKey p = fst e) snap")
  case None
  then show ?thesis by (simp add: promote_def)
next
  case (Some pu)
  obtain p u where pu: "pu = (p, u)" by (cases pu)
  show ?thesis
  proof (cases u)
    case None
    with Some pu show ?thesis by (simp add: promote_def)
  next
    case u: (Some x)
    show ?thesis
    proof (cases "find (\<lambda>p. triangleId p = t \<and> positionKey p = snd e) (trianglePositions st)")
      case None
      with Some pu u show ?thesis by (simp add: promote_def)
    next
      case np: (Some q)
      from find_Some_list_ex [OF np, of pos_id]
      have "list_ex (\<lambda>y. pos_id y = pos_id q) (trianglePositions st)" .
      from update_position_Inr [OF this] Some pu u np show ?thesis
        by (simp add: promote_def only_positions_def)
    qed
  qed
qed

lemma promote_all_ok: "\<exists>st'. promote_all snap t es st = Inr st' \<and> only_positions st st'"
proof (induction es arbitrary: st)
  case Nil
  show ?case by simp
next
  case (Cons e es)
  from promote_ok [of snap t e st] obtain st1 where
    p: "promote snap t e st = Inr st1" "only_positions st st1" by blast
  from Cons.IH [of st1] obtain st2 where
    q: "promote_all snap t es st1 = Inr st2" "only_positions st1 st2" by blast
  from p q show ?case by (auto intro: only_positions_trans)
qed

lemma split_triangle_ok:
  "\<exists>st' ta tb. split_triangle snap tri a b st = Inr st' \<and> users st' = users st
      \<and> plans st' = plans st \<and> transactions st' = transactions st
      \<and> triangles st' = triangles st @ [ta, tb]"
proof -
  let ?c1 = "createTriangle st (planType tri)"
  let ?c2 = "createTriangle (snd ?c1) (planType tri)"
  let ?P1 = "\<lambda>p. triangleId p = tri_id (fst ?c1) \<and> level p = 1 \<and> position p = 0"
  let ?P2 = "\<lambda>p. triangleId p = tri_id (fst ?c2) \<and> level p = 1 \<and> position p = 0"
  let ?st2 = "snd ?c2"
  have e1: "list_ex ?P1 (trianglePositions ?st2)"
    by (simp add: createTriangle_def Let_def TRIANGLE_STRUCTURE_def)
  note u3 = update_position_Inr [OF e1, of "Some (user_id a)"]
  let ?st3 = "?st2\<lparr>trianglePositions :=
        map (\<lambda>p. if ?P1 p then p\<lparr>userId := Some (user_id a)\<rparr> else p) (trianglePositions ?st2)\<rparr>"
  have e2: "list_ex ?P2 (trianglePositions ?st3)"
    by (simp add: createTriangle_def Let_def TRIANGLE_STRUCTURE_def)
  note u4 = update_position_Inr [OF e2, of "Some (user_id b)"]
  let ?st4 = "?st3\<lparr>trianglePositions :=
        map (\<lambda>p. if ?P2 p then p\<lparr>userId := Some (user_id b)\<rparr> else p) (trianglePositions ?st3)\<rparr>"
  from promote_all_ok [of snap "tri_id (fst ?c1)" ab1SubtreeMap ?st4] obtain st5 where
    u5: "promote_all snap (tri_id (fst ?c1)) ab1SubtreeMap ?st4 = Inr st5"
    and k5: "only_positions ?st4 st5" by blast
  from promote_all_ok [of snap "tri_id (fst ?c2)" ab2SubtreeMap st5] obtain st6 where
    u6: "promote_all snap (tri_id (fst ?c2)) ab2SubtreeMap st5 = Inr st6"
    and k6: "only_positions st5 st6" by blast
  have "split_triangle snap tri a b st = Inr st6"
    unfolding split_triangle_def Let_def
    by (simp only: case_prod_beta u3 u4 u5 u6 sum.case)
  moreover from k5 k6 have "users st6 = users st \<and> plans st6 = plans st
      \<and> transactions st6 = transactions st
      \<and> triangles st6 = triangles st @ [fst ?c1, fst ?c2]"
    by (simp add: only_positions_def createTriangle_def Let_def)
  ultimately show ?thesis by blast
qed

lemma delete_triangle_Inr:
  "list_ex (\<lambda>x. tri_id x = t) (triangles st) \<Longrightarrow>
     delete_triangle t st =
       Inr (st\<lparr>trianglePositions := filter (\<lambda>p. triangleId p \<noteq> t) (trianglePositions st),
               triangles := filter (\<lambda>x. tri_id x \<noteq> t) (triangles st)\<rparr>)"
  by (simp add: delete_triangle_def Let_def)

lemma cycleTriangle_total:
  assumes "find_triangle st t \<noteq> None"
  shows "\<exists>st'. cycleTriangle st t = Inr st' \<and> users st' = users st \<and> plans st' = plans st
           \<and> transactions st' = transactions st"
proof -
  from assms have ex: "list_ex (\<lambda>x. tri_id x = t) (triangles st)"
    by (simp only: find_triangle_list_ex)
  have del: "\<exists>st''. delete_triangle t st' = Inr st'' \<and> users st'' = users st
           \<and> plans st'' = plans st \<and> transactions st'' = transactions st"
    if "users st' = users st" "plans st' = plans st" "transactions st' = transactions st"
      "list_ex (\<lambda>x. tri_id x = t) (triangles st')" for st'
    using delete_triangle_Inr [OF that(4)] that(1-3) by simp
  show ?thesis
  proof (cases "load_positions st t")
    case Nil
    then show ?thesis by (simp add: cycleTriangle_def)
  next
    case (Cons pu rest)
    obtain p0 u0 where pu: "pu = (p0, u0)" by (cases pu)
    with Cons have p0: "triangleId p0 = t" using load_positions_hd by blast
    from assms obtain tri where tri: "find_triangle st t = Some tri" by auto
    let ?snap = "load_positions st t"
    show ?thesis
    proof (cases "\<exists>a b. slot_user ?snap 2 0 = Some a \<and> slot_user ?snap 2 1 = Some b")
      case True
      then obtain a b where ab: "slot_user ?snap 2 0 = Some a" "slot_user ?snap 2 1 = Some b"
        by blast
      from split_triangle_ok [of ?snap tri a b st] obtain st' ta tb where
        s: "split_triangle ?snap tri a b st = Inr st'" "users st' = users st"
          "plans st' = plans st" "transactions st' = transactions st"
          "triangles st' = triangles st @ [ta, tb]" by blast
      from s(5) ex have "list_ex (\<lambda>x. tri_id x = t) (triangles st')" by simp
      from del [OF s(2-4) this] obtain st'' where
        d: "delete_triangle t st' = Inr st''" "users st'' = users st"
          "plans st'' = plans st" "transactions st'' = transactions st" by blast
      have "cycleTriangle st t = Inr st''"
        unfolding cycleTriangle_def Let_def using Cons pu p0 tri ab s(1) d(1) by simp
      with d show ?thesis by simp
    next
      case False
      then have "(case (slot_user ?snap 2 0, slot_user ?snap 2 1) of
          (Some ab1User, Some ab2User) \<Rightarrow> split_triangle ?snap tri ab1User ab2User st
        | _ \<Rightarrow> Inr st) = Inr st"
        by (auto split: option.splits)
      then have "cycleTriangle st t = delete_triangle t st"
        unfolding cycleTriangle_def Let_def using Cons pu p0 tri by simp
      with del [OF refl refl refl ex] show ?thesis by simp
    qed
  qed
qed

lemma find_map_update:
  assumes "\<And>x. key (f x) = key x"
  shows "find (\<lambda>x. key x = k) (map (\<lambda>x. if key x = k then f x else x) xs)
           = map_option f (find (\<lambda>x. key x = k) xs)"
  by (induction xs) (auto simp: assms)

lemma mark_complete_Inr:
  assumes "find_triangle st t = Some tri"
  shows "\<exists>st1. mark_complete st t = Inr st1
      \<and> users st1 = users st \<and> plans st1 = plans st \<and> transactions st1 = transactions st
      \<and> trianglePositions st1 = trianglePositions st \<and> clock st1 = clock st
      \<and> find_triangle st1 t = Some (tri\<lparr>isComplete := True, completedAt := Some (clock st)\<rparr>)"
proof -
  from assms have "list_ex (\<lambda>x. tri_id x = t) (triangles st)"
    using find_triangle_list_ex [of st t] by simp
  then have m: "mark_complete st t = Inr (st\<lparr>triangles :=
      map (\<lambda>x. if tri_id x = t then x\<lparr>isComplete := True, completedAt := Some (clock st)\<rparr> else x)
        (triangles st)\<rparr>)"
    by (simp add: mark_complete_def update_rows_Some)
  have "find (\<lambda>x. tri_id x = t)
          (map (\<lambda>x. if tri_id x = t then x\<lparr>isComplete := True, completedAt := Some (clock st)\<rparr> else x)
             (triangles st))
        = map_option (\<lambda>x. x\<lparr>isComplete := True, completedAt := Some (clock st)\<rparr>)
            (find (\<lambda>x. tri_id x = t) (triangles st))"
    by (rule find_map_update) simp
  with assms m show ?thesis
    by (simp add: find_triangle_def)
qed

lemma position_user_cong:
  "users st' = users st \<Longrightarrow> position_user st' p = position_user st p"
  by (simp add: position_user_def find_user_def split: option.splits)

lemma position_user_id:
  "position_user st p = Some u \<Longrightarrow> userId p = Some (user_id u) \<and> find_user st (user_id u) = Some u"
  by (auto simp: position_user_def find_user_def find_Some_iff split: option.splits)

lemma completion_payout_paid:
  assumes tri: "find_triangle st t = Some tri"
    and posA: "find (\<lambda>p. triangleId p = t \<and> level p = 1 \<and> position p = 0) (trianglePositions st)
                 = Some pa"
    and occ: "position_user st pa = Some x"
    and pl: "find_plan st (planType tri) = Some pl"
  shows "completion_payout st t =
           Inr (st\<lparr>transactions := transactions st @ [withdrawal x (payout pl) (clock st)],
                   users := map (\<lambda>u. if user_id u = user_id x then credit (payout pl) u else u)
                              (users st)\<rparr>)"
proof -
  from posA have "triangleId pa = t" by (auto simp: find_Some_iff)
  with tri have tri_pa: "find_triangle st (triangleId pa) = Some tri" by simp
  from position_user_id [OF occ] have "list_ex (\<lambda>u. user_id u = user_id x) (users st)"
    by (auto simp: find_user_def find_Some_iff list_ex_iff)
  then have "update_rows (\<lambda>u. user_id u = user_id x)
               (\<lambda>u. u\<lparr>balance := balance u + payout pl, totalEarned := totalEarned u + payout pl\<rparr>)
               (users st)
             = Some (map (\<lambda>u. if user_id u = user_id x then credit (payout pl) u else u) (users st))"
    by (simp add: update_rows_Some credit_def)
  with posA occ tri_pa pl show ?thesis
    by (simp add: completion_payout_def Let_def withdrawal_def)
qed

lemma completion_payout_skipped:
  assumes tri: "find_triangle st t = Some tri"
    and posA: "find (\<lambda>p. triangleId p = t \<and> level p = 1 \<and> position p = 0) (trianglePositions st)
                 = Some pa"
    and occ: "position_user st pa = Some x"
    and pl: "find_plan st (planType tri) = None"
  shows "completion_payout st t = Inr st"
proof -
  from posA have "triangleId pa = t" by (auto simp: find_Some_iff)
  with tri have tri_pa: "find_triangle st (triangleId pa) = Some tri" by simp
  with posA occ tri_pa pl show ?thesis
    by (simp add: completion_payout_def)
qed

text \<open>
  C3: when the triangle exists, its row at level 1, position 0 loads a user \<open>x\<close>, and a plan row
  with the triangle's plan type exists with payout \<open>p\<close>, \<open>handleTriangleCompletion\<close> returns
  a store whose transactions are the old ones followed by exactly one new transaction, for
  \<open>x\<close>, of type WITHDRAWAL, status PENDING and amount \<open>p\<close>, and in which \<open>balance\<close> and
  \<open>totalEarned\<close> of \<open>x\<close> are the old values plus \<open>p\<close>; every other user is as before.
\<close>

theorem completion_pays_position_A:
  assumes tri: "find_triangle st t = Some tri"
    and posA: "find (\<lambda>p. triangleId p = t \<and> level p = 1 \<and> position p = 0) (trianglePositions st)
                 = Some pa"
    and occ: "position_user st pa = Some x"
    and pl: "find_plan st (planType tri) = Some pl"
  shows "\<exists>st'. handleTriangleCompletion st t = Inr st'
      \<and> transactions st' = transactions st @
           [\<lparr>tx_userId = user_id x, tx_type = ''WITHDRAWAL'', tx_amount = payout pl,
             tx_status = ''PENDING'', tx_stamp = clock st,
             tx_description = ''Automatic withdrawal - Triangle completion''\<rparr>]
      \<and> find_user st' (user_id x) =
           Some (x\<lparr>balance := balance x + payout pl, totalEarned := totalEarned x + payout pl\<rparr>)
      \<and> (\<forall>i. i \<noteq> user_id x \<longrightarrow> find_user st' i = find_user st i)"
proof -
  from mark_complete_Inr [OF tri] obtain st1 where
    m: "mark_complete st t = Inr st1" "users st1 = users st" "plans st1 = plans st"
      "transactions st1 = transactions st" "trianglePositions st1 = trianglePositions st"
      "clock st1 = clock st"
      "find_triangle st1 t = Some (tri\<lparr>isComplete := True, completedAt := Some (clock st)\<rparr>)"
    by blast
  let ?tri = "tri\<lparr>isComplete := True, completedAt := Some (clock st)\<rparr>"
  let ?st2 = "st1\<lparr>transactions := transactions st1 @ [withdrawal x (payout pl) (clock st1)],
                  users := map (\<lambda>u. if user_id u = user_id x then credit (payout pl) u else u)
                             (users st1)\<rparr>"
  have "completion_payout st1 t = Inr ?st2"
  proof (rule completion_payout_paid [OF m(7)])
    show "find (\<lambda>p. triangleId p = t \<and> level p = 1 \<and> position p = 0) (trianglePositions st1)
            = Some pa" using posA m(5) by simp
    show "position_user st1 pa = Some x" using occ position_user_cong [OF m(2)] by simp
    show "find_plan st1 (planType ?tri) = Some pl" using pl m(3) by (simp add: find_plan_def)
  qed
  note p = this
  have "find_triangle ?st2 t \<noteq> None" using m(7) by (simp add: find_triangle_def)
  from cycleTriangle_total [OF this] obtain st' where
    c: "cycleTriangle ?st2 t = Inr st'" "users st' = users ?st2"
      "transactions st' = transactions ?st2" by blast
  have h: "handleTriangleCompletion st t = Inr st'"
    by (simp add: handleTriangleCompletion_def m(1) p c(1))
  have tx: "transactions st' = transactions st @ [withdrawal x (payout pl) (clock st)]"
    using c(3) m by simp
  have us: "users st' = map (\<lambda>u. if user_id u = user_id x then credit (payout pl) u else u) (users st)"
    using c(2) m by simp
  have "find (\<lambda>u. user_id u = user_id x)
          (map (\<lambda>u. if user_id u = user_id x then credit (payout pl) u else u) (users st))
        = map_option (credit (payout pl)) (find (\<lambda>u. user_id u = user_id x) (users st))"
    by (rule find_map_update) (simp add: credit_def)
  with position_user_id [OF occ] us have fx: "find_user st' (user_id x) = Some (credit (payout pl) x)"
    by (simp add: find_user_def)
  have other: "find_user st' i = find_user st i" if "i \<noteq> user_id x" for i
  proof -
    have "find (\<lambda>u. user_id u = i) (map (\<lambda>u. if user_id u = user_id x then credit (payout pl) u else u) us)
        = find (\<lambda>u. user_id u = i) us" for us
      using that by (induction us) (auto simp: credit_def)
    with us show ?thesis by (simp add: find_user_def)
  qed
  from h tx fx other show ?thesis
    by (auto simp: withdrawal_def credit_def)
qed

theorem completion_pays_position_A_witness:
  "find_triangle ex_full 0 = Some ex_triangle
   \<and> find (\<lambda>p. triangleId p = 0 \<and> level p = 1 \<and> position p = 0) (trianglePositions ex_full)
        = Some \<lparr>pos_id = 1, triangleId = 0, level = 1, position = 0, positionKey = ''A'',
                 userId = Some ''u01'', pos_createdAt = 1\<rparr>
   \<and> position_user ex_full
         \<lparr>pos_id = 1, triangleId = 0, level = 1, position = 0, positionKey = ''A'',
          userId = Some ''u01'', pos_createdAt = 1\<rparr> = Some (ex_member ''u01'')
   \<and> find_plan ex_full (planType ex_triangle) = Some ex_plan
   \<and> (\<exists>st'. handleTriangleCompletion ex_full 0 = Inr st'
         \<and> transactions st' =
              [\<lparr>tx_userId = ''u01'', tx_type = ''WITHDRAWAL'', tx_amount = 100,
                tx_status = ''PENDING'', tx_stamp = 16,
                tx_description = ''Automatic withdrawal - Triangle completion''\<rparr>]
         \<and> find_user st' ''u01'' = Some ((ex_member ''u01'')\<lparr>balance := 100, totalEarned := 100\<rparr>))"
proof -
  let ?pa = "\<lparr>pos_id = 1, triangleId = 0, level = 1, position = 0, positionKey = ''A'',
              userId = Some ''u01'', pos_createdAt = 1\<rparr>"
  have h1: "find_triangle ex_full 0 = Some ex_triangle"
    by (simp add: find_triangle_def ex_store_defs)
  have h2: "find (\<lambda>p. triangleId p = 0 \<and> level p = 1 \<and> position p = 0) (trianglePositions ex_full)
        = Some ?pa"
    by (simp add: ex_store_defs)
  have h3: "position_user ex_full ?pa = Some (ex_member ''u01'')"
    by (simp add: position_user_def find_user_def ex_store_defs)
  have h4: "find_plan ex_full (planType ex_triangle) = Some ex_plan"
    by (simp add: find_plan_def ex_store_defs)
  from completion_pays_position_A [OF h1 h2 h3 h4] obtain st' where
    "handleTriangleCompletion ex_full 0 = Inr st'"
    "transactions st' = transactions ex_full @
           [\<lparr>tx_userId = user_id (ex_member ''u01''), tx_type = ''WITHDRAWAL'',
             tx_amount = payout ex_plan, tx_status = ''PENDING'', tx_stamp = clock ex_full,
             tx_description = ''Automatic withdrawal - Triangle completion''\<rparr>]"
    "find_user st' (user_id (ex_member ''u01'')) =
           Some ((ex_member ''u01'')\<lparr>balance := balance (ex_member ''u01'') + payout ex_plan,
                   totalEarned := totalEarned (ex_member ''u01'') + payout ex_plan\<rparr>)"
    by blast
  then have "\<exists>st'. handleTriangleCompletion ex_full 0 = Inr st'
         \<and> transactions st' =
              [\<lparr>tx_userId = ''u01'', tx_type = ''WITHDRAWAL'', tx_amount = 100,
                tx_status = ''PENDING'', tx_stamp = 16,
                tx_description = ''Automatic withdrawal - Triangle completion''\<rparr>]
         \<and> find_user st' ''u01'' = Some ((ex_member ''u01'')\<lparr>balance := 100, totalEarned := 100\<rparr>)"
    by (simp add: ex_full_def ex_member_def ex_plan_def)
  with h1 h2 h3 h4 show ?thesis by blast
qed

text \<open>
  C6: when the triangle exists and its row at level 1, position 0 loads a user, but no plan row
  carries the triangle's plan type, \<open>handleTriangleCompletion\<close> raises no error: its result is
  the result of \<open>cycleTriangle\<close> on the store in which the triangle is marked complete, that
  result is a store, and its transactions and users are those of the initial store.
\<close>

theorem completion_without_plan:
  assumes tri: "find_triangle st t = Some tri"
    and posA: "find (\<lambda>p. triangleId p = t \<and> level p = 1 \<and> position p = 0) (trianglePositions st)
                 = Some pa"
    and occ: "position_user st pa = Some x"
    and pl: "find_plan st (planType tri) = None"
  shows "\<exists>st1 st'. mark_complete st t = Inr st1
      \<and> handleTriangleCompletion st t = cycleTriangle st1 t
      \<and> cycleTriangle st1 t = Inr st'
      \<and> transactions st' = transactions st \<and> users st' = users st"
proof -
  from mark_complete_Inr [OF tri] obtain st1 where
    m: "mark_complete st t = Inr st1" "users st1 = users st" "plans st1 = plans st"
      "transactions st1 = transactions st" "trianglePositions st1 = trianglePositions st"
      "clock st1 = clock st"
      "find_triangle st1 t = Some (tri\<lparr>isComplete := True, completedAt := Some (clock st)\<rparr>)"
    by blast
  let ?tri = "tri\<lparr>isComplete := True, completedAt := Some (clock st)\<rparr>"
  have p: "completion_payout st1 t = Inr st1"
  proof (rule completion_payout_skipped [OF m(7)])
    show "find (\<lambda>p. triangleId p = t \<and> level p = 1 \<and> position p = 0) (trianglePositions st1)
            = Some pa" using posA m(5) by simp
    show "position_user st1 pa = Some x" using occ position_user_cong [OF m(2)] by simp
    show "find_plan st1 (planType ?tri) = None" using pl m(3) by (simp add: find_plan_def)
  qed
  have "find_triangle st1 t \<noteq> None" using m(7) by simp
  from cycleTriangle_total [OF this] obtain st' where
    c: "cycleTriangle st1 t = Inr st'" "users st' = users st1"
      "transactions st' = transactions st1" by blast
  have "handleTriangleCompletion st t = cycleTriangle st1 t"
    by (simp add: handleTriangleCompletion_def m(1) p)
  with m c show ?thesis by simp
qed

theorem completion_without_plan_witness:
  "find_triangle ex_noplan 0 = Some ex_triangle
   \<and> find (\<lambda>p. triangleId p = 0 \<and> level p = 1 \<and> position p = 0) (trianglePositions ex_noplan)
        = Some \<lparr>pos_id = 1, triangleId = 0, level = 1, position = 0, positionKey = ''A'',
                 userId = Some ''u01'', pos_createdAt = 1\<rparr>
   \<and> position_user ex_noplan
         \<lparr>pos_id = 1, triangleId = 0, level = 1, position = 0, positionKey = ''A'',
          userId = Some ''u01'', pos_createdAt = 1\<rparr> = Some (ex_member ''u01'')
   \<and> find_plan ex_noplan (planType ex_triangle) = None
   \<and> (\<exists>st1 st'. mark_complete ex_noplan 0 = Inr st1
         \<and> handleTriangleCompletion ex_noplan 0 = cycleTriangle st1 0
         \<and> cycleTriangle st1 0 = Inr st'
         \<and> transactions st' = transactions ex_noplan \<and> users st' = users ex_noplan)"
proof -
  let ?pa = "\<lparr>pos_id = 1, triangleId = 0, level = 1, position = 0, positionKey = ''A'',
              userId = Some ''u01'', pos_createdAt = 1\<rparr>"
  have h1: "find_triangle ex_noplan 0 = Some ex_triangle"
    by (simp add: find_triangle_def ex_store_defs)
  have h2: "find (\<lambda>p. triangleId p = 0 \<and> level p = 1 \<and> position p = 0)
              (trianglePositions ex_noplan) = Some ?pa"
    by (simp add: ex_store_defs)
  have h3: "position_user ex_noplan ?pa = Some (ex_member ''u01'')"
    by (simp add: position_user_def find_user_def ex_store_defs)
  have h4: "find_plan ex_noplan (planType ex_triangle) = None"
    by (simp add: find_plan_def ex_store_defs)
  from completion_without_plan [OF h1 h2 h3 h4] h1 h2 h3 h4 show ?thesis
    by blast
qed

lemma new_positions_filled:
  "new_positions t ts i S = filled_positions t ts i (\<lambda>_. None) S"
  by (induction S arbitrary: i) auto

lemma createTriangle_rows:
  "createTriangle st pl =
     (new_triangle (clock st) pl,
      st\<lparr>triangles := triangles st @ [new_triangle (clock st) pl],
         trianglePositions := trianglePositions st @ triangle_rows (clock st) (\<lambda>_. None),
         clock := clock st + 16\<rparr>)"
  by (simp add: createTriangle_def Let_def new_positions_filled triangle_rows_def new_triangle_def)

lemma filled_positions_member:
  "p \<in> set (filled_positions t ts i occ S) \<Longrightarrow>
     triangleId p = t \<and> i \<le> pos_id p \<and> pos_id p < i + length S"
  by (induction S arbitrary: i) force+

lemma filled_positions_cong:
  "\<forall>e\<in>set S. occ (snd (snd e)) = occ' (snd (snd e)) \<Longrightarrow>
     filled_positions t ts i occ S = filled_positions t ts i occ' S"
  by (induction S arbitrary: i) auto

lemma filled_positions_no_id:
  "j < i \<Longrightarrow> map (\<lambda>p. if pos_id p = j then f p else p) (filled_positions t ts i occ S)
              = filled_positions t ts i occ S"
  by (induction S arbitrary: i) auto

lemma filled_positions_slot:
  assumes "distinct (map (\<lambda>(l, n, k). k) S)" and "k \<in> set (map (\<lambda>(l, n, k). k) S)"
  shows "\<exists>q. find (\<lambda>p. triangleId p = t \<and> positionKey p = k) (filled_positions t ts i occ S) = Some q
           \<and> i \<le> pos_id q \<and> pos_id q < i + length S
           \<and> map (\<lambda>p. if pos_id p = pos_id q then p\<lparr>userId := v\<rparr> else p)
                 (filled_positions t ts i occ S)
               = filled_positions t ts i (occ(k := v)) S"
  using assms
proof (induction S arbitrary: i)
  case Nil
  then show ?case by simp
next
  case (Cons e S)
  obtain l n k0 where e: "e = (l, n, k0)" by (cases e)
  show ?case
  proof (cases "k0 = k")
    case True
    with Cons.prems e have notin: "\<forall>e\<in>set S. snd (snd e) \<noteq> k" by force
    have a: "filled_positions t ts (Suc i) (occ(k := v)) S = filled_positions t ts (Suc i) occ S"
      by (rule filled_positions_cong) (use notin in auto)
    have b: "map (\<lambda>p. if pos_id p = i then p\<lparr>userId := v\<rparr> else p)
        (filled_positions t ts (Suc i) occ S) = filled_positions t ts (Suc i) occ S"
      by (rule filled_positions_no_id) simp
    let ?q = "\<lparr>pos_id = i, triangleId = t, level = l, position = n, positionKey = k,
               userId = occ k, pos_createdAt = ts\<rparr>"
    have f: "find (\<lambda>p. triangleId p = t \<and> positionKey p = k) (filled_positions t ts i occ (e # S))
            = Some ?q" using True e by simp
    have m: "map (\<lambda>p. if pos_id p = pos_id ?q then p\<lparr>userId := v\<rparr> else p)
                 (filled_positions t ts i occ (e # S))
               = filled_positions t ts i (occ(k := v)) (e # S)"
      unfolding e True filled_positions.simps a using b by simp
    have "find (\<lambda>p. triangleId p = t \<and> positionKey p = k) (filled_positions t ts i occ (e # S))
            = Some ?q \<and> i \<le> pos_id ?q \<and> pos_id ?q < i + length (e # S)
           \<and> map (\<lambda>p. if pos_id p = pos_id ?q then p\<lparr>userId := v\<rparr> else p)
                 (filled_positions t ts i occ (e # S))
               = filled_positions t ts i (occ(k := v)) (e # S)"
      using f m by simp
    then show ?thesis by (rule exI)
  next
    case False
    with Cons.prems e have "distinct (map (\<lambda>(l, n, k). k) S)" "k \<in> set (map (\<lambda>(l, n, k). k) S)"
      by auto
    from Cons.IH [OF this, of "Suc i"] obtain q where
      q: "find (\<lambda>p. triangleId p = t \<and> positionKey p = k) (filled_positions t ts (Suc i) occ S) = Some q"
        "Suc i \<le> pos_id q" "pos_id q < Suc i + length S"
        "map (\<lambda>p. if pos_id p = pos_id q then p\<lparr>userId := v\<rparr> else p)
                 (filled_positions t ts (Suc i) occ S)
               = filled_positions t ts (Suc i) (occ(k := v)) S" by blast
    have "find (\<lambda>p. triangleId p = t \<and> positionKey p = k) (filled_positions t ts i occ (e # S))
            = Some q \<and> i \<le> pos_id q \<and> pos_id q < i + length (e # S)
           \<and> map (\<lambda>p. if pos_id p = pos_id q then p\<lparr>userId := v\<rparr> else p)
                 (filled_positions t ts i occ (e # S))
               = filled_positions t ts i (occ(k := v)) (e # S)"
      using q False e by auto
    then show ?thesis by (rule exI)
  qed
qed

lemma structure_keys_distinct: "distinct (map (\<lambda>(l, n, k). k) TRIANGLE_STRUCTURE)"
  by (simp add: TRIANGLE_STRUCTURE_def)

lemma triangle_rows_slot:
  assumes "k \<in> set structure_keys"
  shows "\<exists>q. find (\<lambda>p. triangleId p = c \<and> positionKey p = k) (triangle_rows c occ) = Some q
           \<and> c < pos_id q \<and> pos_id q \<le> c + 15
           \<and> map (\<lambda>p. if pos_id p = pos_id q then p\<lparr>userId := v\<rparr> else p) (triangle_rows c occ)
               = triangle_rows c (occ(k := v))"
proof -
  from filled_positions_slot [OF structure_keys_distinct assms [unfolded structure_keys_def],
      of c "Suc c" "Suc c" occ v]
  obtain q where q: "find (\<lambda>p. triangleId p = c \<and> positionKey p = k)
          (filled_positions c (Suc c) (Suc c) occ TRIANGLE_STRUCTURE) = Some q"
      "Suc c \<le> pos_id q" "pos_id q < Suc c + length TRIANGLE_STRUCTURE"
      "map (\<lambda>p. if pos_id p = pos_id q then p\<lparr>userId := v\<rparr> else p)
                 (filled_positions c (Suc c) (Suc c) occ TRIANGLE_STRUCTURE)
               = filled_positions c (Suc c) (Suc c) (occ(k := v)) TRIANGLE_STRUCTURE" by blast
  have "length TRIANGLE_STRUCTURE = 15" by (simp add: TRIANGLE_STRUCTURE_def)
  with q have "find (\<lambda>p. triangleId p = c \<and> positionKey p = k) (triangle_rows c occ) = Some q
           \<and> c < pos_id q \<and> pos_id q \<le> c + 15
           \<and> map (\<lambda>p. if pos_id p = pos_id q then p\<lparr>userId := v\<rparr> else p) (triangle_rows c occ)
               = triangle_rows c (occ(k := v))"
    unfolding triangle_rows_def by auto
  then show ?thesis by (rule exI)
qed

lemma foreign_find:
  "foreign c ps \<Longrightarrow> find (\<lambda>p. triangleId p = c \<and> Q p) ps = None"
  by (auto simp: foreign_def find_None_iff list_all_iff)

lemma foreign_map_id:
  "foreign c ps \<Longrightarrow> c < j \<Longrightarrow> j \<le> c + 15 \<Longrightarrow>
     map (\<lambda>p. if pos_id p = j then f p else p) ps = ps"
  by (induction ps) (auto simp: foreign_def)

lemma foreign_map_tri:
  "foreign c ps \<Longrightarrow> map (\<lambda>p. if triangleId p = c \<and> Q p then f p else p) ps = ps"
  by (induction ps) (auto simp: foreign_def)

lemma find_append:
  "find P (xs @ ys) = (case find P xs of None \<Rightarrow> find P ys | Some x \<Rightarrow> Some x)"
  by (induction xs) auto

lemma promote_rows:
  assumes pos: "trianglePositions st = pre @ triangle_rows c occ @ post"
    and pre: "foreign c pre" and post: "foreign c post"
    and key: "k' \<in> set structure_keys"
  shows "promote snap c (k, k') st =
           Inr (st\<lparr>trianglePositions :=
                    pre @ triangle_rows c
                            (occ(k' := (case snap_user snap k of None \<Rightarrow> occ k'
                                        | Some u \<Rightarrow> Some (user_id u)))) @ post\<rparr>)"
proof (cases "snap_user snap k")
  case None
  then have "promote snap c (k, k') st = Inr st"
    by (auto simp: promote_def snap_user_def split: option.splits)
  moreover have "st\<lparr>trianglePositions := pre @ triangle_rows c (occ(k' := occ k')) @ post\<rparr> = st"
    using pos by simp
  ultimately show ?thesis using None by simp
next
  case (Some u)
  then obtain p where snap: "find (\<lambda>(p, u). positionKey p = k) snap = Some (p, Some u)"
    by (auto simp: snap_user_def split: option.splits)
  from triangle_rows_slot [OF key, of c occ "Some (user_id u)"] obtain q where
    q: "find (\<lambda>p. triangleId p = c \<and> positionKey p = k') (triangle_rows c occ) = Some q"
      "c < pos_id q" "pos_id q \<le> c + 15"
      "map (\<lambda>p. if pos_id p = pos_id q then p\<lparr>userId := Some (user_id u)\<rparr> else p) (triangle_rows c occ)
         = triangle_rows c (occ(k' := Some (user_id u)))" by blast
  have f: "find (\<lambda>p. triangleId p = c \<and> positionKey p = k') (trianglePositions st) = Some q"
    using pos q(1) foreign_find [OF pre] by (simp add: find_append)
  from find_Some_list_ex [OF f, of pos_id]
  have "list_ex (\<lambda>y. pos_id y = pos_id q) (trianglePositions st)" .
  from update_position_Inr [OF this, of "Some (user_id u)"]
  have "update_position (\<lambda>p. pos_id p = pos_id q) (Some (user_id u)) st =
      Inr (st\<lparr>trianglePositions := pre @ triangle_rows c (occ(k' := Some (user_id u))) @ post\<rparr>)"
    using pos q(4) foreign_map_id [OF pre q(2,3)] foreign_map_id [OF post q(2,3)] by simp
  with snap f Some show ?thesis by (simp add: promote_def)
qed

lemma promoted_Cons:
  "promoted snap ((k, k') # es) occ =
     promoted snap es
       (occ(k' := (case snap_user snap k of None \<Rightarrow> occ k' | Some u \<Rightarrow> Some (user_id u))))"
  unfolding promoted_def by (simp del: fun_upd_apply)

lemma promote_all_rows:
  assumes "trianglePositions st = pre @ triangle_rows c occ @ post"
    and "foreign c pre" and "foreign c post"
    and "\<forall>e\<in>set es. snd e \<in> set structure_keys"
  shows "promote_all snap c es st =
           Inr (st\<lparr>trianglePositions := pre @ triangle_rows c (promoted snap es occ) @ post\<rparr>)"
  using assms
proof (induction es arbitrary: st occ)
  case Nil
  then show ?case by (simp add: promoted_def)
next
  case (Cons e es)
  obtain k k' where e: "e = (k, k')" by (cases e)
  define occ' where
    "occ' = occ(k' := (case snap_user snap k of None \<Rightarrow> occ k' | Some u \<Rightarrow> Some (user_id u)))"
  define st' where "st' = st\<lparr>trianglePositions := pre @ triangle_rows c occ' @ post\<rparr>"
  from Cons.prems e have k': "k' \<in> set structure_keys" by simp
  from promote_rows [OF Cons.prems(1-3) k', of snap k]
  have p: "promote snap c e st = Inr st'" unfolding e st'_def occ'_def .
  have "promote_all snap c es st' =
      Inr (st'\<lparr>trianglePositions := pre @ triangle_rows c (promoted snap es occ') @ post\<rparr>)"
    by (rule Cons.IH) (use Cons.prems in \<open>auto simp: st'_def\<close>)
  moreover have "promoted snap (e # es) occ = promoted snap es occ'"
    unfolding e occ'_def by (rule promoted_Cons)
  ultimately show ?case using p by (simp add: st'_def)
qed

lemma triangle_rows_member:
  "p \<in> set (triangle_rows c occ) \<Longrightarrow> triangleId p = c \<and> c < pos_id p \<and> pos_id p \<le> c + 15"
proof -
  assume "p \<in> set (triangle_rows c occ)"
  from filled_positions_member [OF this [unfolded triangle_rows_def]]
  show ?thesis by (simp add: TRIANGLE_STRUCTURE_def)
qed

lemma foreign_append [simp]: "foreign c (xs @ ys) \<longleftrightarrow> foreign c xs \<and> foreign c ys"
  by (simp add: foreign_def)

lemma foreign_Nil [simp]: "foreign c []"
  by (simp add: foreign_def)

lemma foreign_fresh: "fresh st \<Longrightarrow> clock st \<le> c \<Longrightarrow> foreign c (trianglePositions st)"
  by (auto simp: fresh_def foreign_def list_all_iff)

lemma foreign_rows_later: "foreign c (triangle_rows (c + 16) occ)"
  by (auto simp: foreign_def list_all_iff dest!: triangle_rows_member)

lemma foreign_rows_earlier: "foreign (c + 16) (triangle_rows c occ)"
  by (auto simp: foreign_def list_all_iff dest!: triangle_rows_member)

lemma filter_triangle_rows:
  "t \<noteq> c \<Longrightarrow> filter (\<lambda>p. triangleId p \<noteq> t) (triangle_rows c occ) = triangle_rows c occ"
  using triangle_rows_member [of _ c occ] by (auto simp: filter_id_conv)

lemma set_A_rows:
  assumes pos: "trianglePositions st = pre @ triangle_rows c occ @ post"
    and pre: "foreign c pre" and post: "foreign c post"
  shows "update_position (\<lambda>p. triangleId p = c \<and> level p = 1 \<and> position p = 0) v st =
           Inr (st\<lparr>trianglePositions := pre @ triangle_rows c (occ(''A'' := v)) @ post\<rparr>)"
proof -
  let ?P = "\<lambda>p. triangleId p = c \<and> level p = 1 \<and> position p = 0"
  have "list_ex ?P (triangle_rows c occ)"
    by (simp add: triangle_rows_def TRIANGLE_STRUCTURE_def)
  with pos have ex: "list_ex ?P (trianglePositions st)" by (simp add: list_ex_iff) blast
  have rows: "map (\<lambda>p. if ?P p then p\<lparr>userId := v\<rparr> else p) (triangle_rows c occ)
                = triangle_rows c (occ(''A'' := v))"
    by (simp add: triangle_rows_def TRIANGLE_STRUCTURE_def)
  have "map (\<lambda>p. if ?P p then p\<lparr>userId := v\<rparr> else p) (trianglePositions st)
          = pre @ triangle_rows c (occ(''A'' := v)) @ post"
    unfolding pos map_append rows
    using foreign_map_tri [OF pre, of "\<lambda>p. level p = 1 \<and> position p = 0"]
      foreign_map_tri [OF post, of "\<lambda>p. level p = 1 \<and> position p = 0"] by simp
  with update_position_Inr [OF ex, of v] show ?thesis by simp
qed

lemma subtree_maps_keys:
  "\<forall>e\<in>set ab1SubtreeMap. snd e \<in> set structure_keys"
  "\<forall>e\<in>set ab2SubtreeMap. snd e \<in> set structure_keys"
  by (simp_all add: ab1SubtreeMap_def ab2SubtreeMap_def structure_keys_def TRIANGLE_STRUCTURE_def)

lemma split_triangle_rows:
  assumes fresh: "fresh st"
  shows "split_triangle snap tri a b st =
     Inr (st\<lparr>triangles := triangles st @
                 [new_triangle (clock st) (planType tri), new_triangle (clock st + 16) (planType tri)],
             trianglePositions := trianglePositions st
                 @ triangle_rows (clock st) (successor_rows snap ab1SubtreeMap a)
                 @ triangle_rows (clock st + 16) (successor_rows snap ab2SubtreeMap b),
             clock := clock st + 32\<rparr>)"
proof -
  define c where "c = clock st"
  define pl where "pl = planType tri"
  define P where "P = trianglePositions st"
  define e0 :: "string \<Rightarrow> string option" where "e0 = (\<lambda>_. None)"
  define st2 where "st2 = st\<lparr>triangles := triangles st @ [new_triangle c pl, new_triangle (c + 16) pl],
      trianglePositions := P @ triangle_rows c e0 @ triangle_rows (c + 16) e0, clock := c + 32\<rparr>"
  define oa where "oa = e0(''A'' := Some (user_id a))"
  define ob where "ob = e0(''A'' := Some (user_id b))"
  define st3 where "st3 = st2\<lparr>trianglePositions := P @ triangle_rows c oa @ triangle_rows (c + 16) e0\<rparr>"
  define st4 where "st4 = st2\<lparr>trianglePositions := P @ triangle_rows c oa @ triangle_rows (c + 16) ob\<rparr>"
  define st5 where "st5 = st2\<lparr>trianglePositions :=
      P @ triangle_rows c (promoted snap ab1SubtreeMap oa) @ triangle_rows (c + 16) ob\<rparr>"
  define st6 where "st6 = st2\<lparr>trianglePositions :=
      P @ triangle_rows c (promoted snap ab1SubtreeMap oa)
        @ triangle_rows (c + 16) (promoted snap ab2SubtreeMap ob)\<rparr>"
  have fP: "foreign c P" "foreign (c + 16) P"
    using foreign_fresh [OF fresh] by (simp_all add: c_def P_def)
  have c1: "createTriangle st (planType tri) =
      (new_triangle c pl, st\<lparr>triangles := triangles st @ [new_triangle c pl],
         trianglePositions := P @ triangle_rows c e0, clock := c + 16\<rparr>)"
    by (simp add: createTriangle_rows c_def pl_def P_def e0_def)
  have c2: "createTriangle (st\<lparr>triangles := triangles st @ [new_triangle c pl],
         trianglePositions := P @ triangle_rows c e0, clock := c + 16\<rparr>) (planType tri)
      = (new_triangle (c + 16) pl, st2)"
    by (simp add: createTriangle_rows st2_def pl_def e0_def)
  have u3: "update_position (\<lambda>p. triangleId p = c \<and> level p = 1 \<and> position p = 0)
      (Some (user_id a)) st2 = Inr st3"
    unfolding st3_def oa_def
    by (rule set_A_rows)
       (simp_all add: st2_def fP foreign_rows_later)
  have u4: "update_position (\<lambda>p. triangleId p = c + 16 \<and> level p = 1 \<and> position p = 0)
      (Some (user_id b)) st3 = Inr st4"
  proof -
    have "update_position (\<lambda>p. triangleId p = c + 16 \<and> level p = 1 \<and> position p = 0)
      (Some (user_id b)) st3
      = Inr (st3\<lparr>trianglePositions := (P @ triangle_rows c oa) @ triangle_rows (c + 16) ob @ []\<rparr>)"
      unfolding ob_def
      by (rule set_A_rows) (simp_all add: st3_def fP foreign_rows_earlier)
    then show ?thesis by (simp add: st3_def st4_def)
  qed
  have u5: "promote_all snap c ab1SubtreeMap st4 = Inr st5"
  proof -
    have "promote_all snap c ab1SubtreeMap st4
      = Inr (st4\<lparr>trianglePositions := P @ triangle_rows c (promoted snap ab1SubtreeMap oa)
               @ triangle_rows (c + 16) ob\<rparr>)"
      by (rule promote_all_rows)
         (simp_all add: st4_def fP foreign_rows_later subtree_maps_keys)
    then show ?thesis by (simp add: st4_def st5_def)
  qed
  have u6: "promote_all snap (c + 16) ab2SubtreeMap st5 = Inr st6"
  proof -
    have "promote_all snap (c + 16) ab2SubtreeMap st5
      = Inr (st5\<lparr>trianglePositions := (P @ triangle_rows c (promoted snap ab1SubtreeMap oa))
               @ triangle_rows (c + 16) (promoted snap ab2SubtreeMap ob) @ []\<rparr>)"
      by (rule promote_all_rows)
         (simp_all add: st5_def fP foreign_rows_earlier subtree_maps_keys)
    then show ?thesis by (simp add: st5_def st6_def)
  qed
  have t1: "tri_id (new_triangle c pl) = c" and t2: "tri_id (new_triangle (c + 16) pl) = c + 16"
    by (simp_all add: new_triangle_def)
  have "split_triangle snap tri a b st = Inr st6"
    unfolding split_triangle_def Let_def c1 c2 prod.case t1 t2 u3 u4 u5 u6 sum.case ..
  then show ?thesis
    by (simp add: st6_def st2_def successor_rows_def oa_def ob_def e0_def c_def pl_def P_def)
qed

lemma find_triangle_Some:
  "find_triangle st t = Some tri \<Longrightarrow> tri \<in> set (triangles st) \<and> tri_id tri = t"
  by (auto simp: find_triangle_def find_Some_iff)

lemma cycle_split_rows:
  assumes fresh: "fresh st"
    and tri: "find_triangle st t = Some tri"
    and ab1: "slot_user (load_positions st t) 2 0 = Some a"
    and ab2: "slot_user (load_positions st t) 2 1 = Some b"
  shows "cycleTriangle st t =
     Inr (st\<lparr>triangles := filter (\<lambda>x. tri_id x \<noteq> t) (triangles st) @
                 [new_triangle (clock st) (planType tri), new_triangle (clock st + 16) (planType tri)],
             trianglePositions := filter (\<lambda>p. triangleId p \<noteq> t) (trianglePositions st)
                 @ triangle_rows (clock st) (successor_rows (load_positions st t) ab1SubtreeMap a)
                 @ triangle_rows (clock st + 16) (successor_rows (load_positions st t) ab2SubtreeMap b),
             clock := clock st + 32\<rparr>)"
proof -
  define snap where "snap = load_positions st t"
  from ab1 have "snap \<noteq> []" by (auto simp: snap_def slot_user_def)
  then obtain p0 u0 rest where snap: "snap = (p0, u0) # rest"
    by (cases snap) auto
  then have p0: "triangleId p0 = t" unfolding snap_def by (rule load_positions_hd)
  from find_triangle_Some [OF tri] fresh have lt: "t < clock st"
    by (auto simp: fresh_def list_all_iff)
  define st' where "st' = st\<lparr>triangles := triangles st @
                 [new_triangle (clock st) (planType tri), new_triangle (clock st + 16) (planType tri)],
             trianglePositions := trianglePositions st
                 @ triangle_rows (clock st) (successor_rows snap ab1SubtreeMap a)
                 @ triangle_rows (clock st + 16) (successor_rows snap ab2SubtreeMap b),
             clock := clock st + 32\<rparr>"
  have s: "split_triangle snap tri a b st = Inr st'"
    unfolding st'_def by (rule split_triangle_rows [OF fresh])
  from tri have "list_ex (\<lambda>x. tri_id x = t) (triangles st')"
    using find_triangle_list_ex [of st t] by (simp add: st'_def)
  from delete_triangle_Inr [OF this] lt
  have d: "delete_triangle t st' =
     Inr (st\<lparr>triangles := filter (\<lambda>x. tri_id x \<noteq> t) (triangles st) @
                 [new_triangle (clock st) (planType tri), new_triangle (clock st + 16) (planType tri)],
             trianglePositions := filter (\<lambda>p. triangleId p \<noteq> t) (trianglePositions st)
                 @ triangle_rows (clock st) (successor_rows snap ab1SubtreeMap a)
                 @ triangle_rows (clock st + 16) (successor_rows snap ab2SubtreeMap b),
             clock := clock st + 32\<rparr>)"
    by (simp add: st'_def filter_triangle_rows new_triangle_def)
  have "cycleTriangle st t = delete_triangle t st'"
    unfolding cycleTriangle_def Let_def
    using snap p0 tri ab1 ab2 s by (simp add: snap_def [symmetric])
  with d show ?thesis by (simp add: snap_def)
qed

lemma find_conj_filter:
  "find (\<lambda>x. P x \<and> Q x) xs = find Q (filter P xs)"
  by (induction xs) auto

lemma find_unique_key:
  assumes "distinct (map f xs)" and "set ys = set xs"
  shows "find (\<lambda>x. f x = k) ys = find (\<lambda>x. f x = k) xs"
proof (cases "find (\<lambda>x. f x = k) xs")
  case None
  then have "\<forall>x\<in>set xs. f x \<noteq> k" by (simp add: find_None_iff)
  with assms(2) have "find (\<lambda>x. f x = k) ys = None" by (simp add: find_None_iff)
  with None show ?thesis by simp
next
  case (Some x)
  then have x: "x \<in> set xs" "f x = k" by (auto simp: find_Some_iff)
  with assms(2) obtain y where y: "find (\<lambda>x. f x = k) ys = Some y"
    by (cases "find (\<lambda>x. f x = k) ys") (auto simp: find_None_iff)
  then have "y \<in> set xs" "f y = k" using assms(2) by (auto simp: find_Some_iff)
  with x assms(1) have "y = x" by (metis distinct_map inj_onD)
  with y Some show ?thesis by simp
qed

lemma by_level_position_length [simp]: "length (by_level_position ps) = length ps"
  by (simp add: by_level_position_def)

lemma well_formed_sorted_keys:
  assumes "well_formed st t"
  shows "map positionKey (by_level_position (filter (\<lambda>p. triangleId p = t) (trianglePositions st)))
           = structure_keys"
proof -
  have "map positionKey (by_level_position (filter (\<lambda>p. triangleId p = t) (trianglePositions st)))
      = map (\<lambda>(l, n, k). k) (map (\<lambda>p. (level p, position p, positionKey p))
          (by_level_position (filter (\<lambda>p. triangleId p = t) (trianglePositions st))))"
    by simp
  with assms show ?thesis unfolding well_formed_def structure_keys_def by simp
qed

lemma snap_user_sorted:
  "snap_user (load_positions st t) k =
     (case find (\<lambda>p. positionKey p = k)
             (by_level_position (filter (\<lambda>p. triangleId p = t) (trianglePositions st))) of
        None \<Rightarrow> None | Some p \<Rightarrow> position_user st p)"
  by (simp add: snap_user_def load_positions_def find_map_sel split: option.splits)

lemma snap_user_occupant:
  assumes wf: "well_formed st t"
  shows "snap_user (load_positions st t) k = occupant_user st t k"
proof -
  let ?F = "filter (\<lambda>p. triangleId p = t) (trianglePositions st)"
  let ?S = "by_level_position ?F"
  have "distinct (map positionKey ?S)"
    using well_formed_sorted_keys [OF wf] structure_keys_distinct
    by (simp add: structure_keys_def)
  then have "find (\<lambda>p. positionKey p = k) ?F = find (\<lambda>p. positionKey p = k) ?S"
    by (rule find_unique_key) simp
  then show ?thesis
    by (simp add: snap_user_sorted occupant_user_def find_conj_filter)
qed

lemma slot_user_sorted:
  "slot_user (load_positions st t) l n =
     (case find (\<lambda>p. level p = l \<and> position p = n)
             (by_level_position (filter (\<lambda>p. triangleId p = t) (trianglePositions st))) of
        None \<Rightarrow> None | Some p \<Rightarrow> position_user st p)"
  by (simp add: slot_user_def load_positions_def find_map_sel split: option.splits)

lemma well_formed_slot_key:
  assumes wf: "well_formed st t"
    and e: "\<forall>(l', n', k')\<in>set TRIANGLE_STRUCTURE. (l' = l \<and> n' = n) \<longleftrightarrow> k' = k"
  shows "slot_user (load_positions st t) l n = snap_user (load_positions st t) k"
proof -
  let ?S = "by_level_position (filter (\<lambda>p. triangleId p = t) (trianglePositions st))"
  have "(level p = l \<and> position p = n) \<longleftrightarrow> positionKey p = k" if "p \<in> set ?S" for p
  proof -
    from that have "(level p, position p, positionKey p)
        \<in> set (map (\<lambda>p. (level p, position p, positionKey p)) ?S)" by (simp add: image_iff) blast
    with wf have "(level p, position p, positionKey p) \<in> set TRIANGLE_STRUCTURE"
      by (simp add: well_formed_def)
    with e show ?thesis by blast
  qed
  then have "find (\<lambda>p. level p = l \<and> position p = n) ?S = find (\<lambda>p. positionKey p = k) ?S"
    by (intro find_cong) auto
  then show ?thesis by (simp add: slot_user_sorted snap_user_sorted)
qed

lemma filled_positions_userId:
  "(case find (\<lambda>p. triangleId p = t \<and> positionKey p = k) (filled_positions t ts i occ S) of
      None \<Rightarrow> None | Some p \<Rightarrow> userId p)
   = (if k \<in> set (map (\<lambda>(l, n, k). k) S) then occ k else None)"
  by (induction S arbitrary: i) (force simp: image_iff)+

lemma occupant_rows:
  assumes pos: "trianglePositions st = pre @ triangle_rows c occ @ post"
    and pre: "foreign c pre" and key: "k \<in> set structure_keys"
  shows "occupant st c k = occ k"
proof -
  from key filled_positions_userId [of c k "Suc c" "Suc c" occ TRIANGLE_STRUCTURE]
  have u: "(case find (\<lambda>p. triangleId p = c \<and> positionKey p = k) (triangle_rows c occ) of
      None \<Rightarrow> None | Some p \<Rightarrow> userId p) = occ k"
    by (simp add: triangle_rows_def structure_keys_def)
  from triangle_rows_slot [OF key, of c occ None] obtain q where
    q: "find (\<lambda>p. triangleId p = c \<and> positionKey p = k) (triangle_rows c occ) = Some q" by blast
  with u have "userId q = occ k" by simp
  with q pos foreign_find [OF pre] show ?thesis
    by (simp add: occupant_def find_append)
qed

lemma promoted_Nil: "promoted snap [] occ = occ"
  by (simp add: promoted_def)

lemma successor_rows_left:
  "map (successor_rows snap ab1SubtreeMap a) structure_keys =
     Some (user_id a) #
     map (\<lambda>k. map_option user_id (snap_user snap k))
       [''B1C1'', ''B1C2'', ''C1D1'', ''C1D2'', ''C2D1'', ''C2D2''] @ replicate 8 None"
  by (simp add: successor_rows_def ab1SubtreeMap_def promoted_Cons promoted_Nil
      structure_keys_def TRIANGLE_STRUCTURE_def map_option_case numeral_eq_Suc
      cong: option.case_cong)

lemma successor_rows_right:
  "map (successor_rows snap ab2SubtreeMap b) structure_keys =
     Some (user_id b) #
     map (\<lambda>k. map_option user_id (snap_user snap k))
       [''B2C1'', ''B2C2'', ''C3D1'', ''C3D2'', ''C4D1'', ''C4D2''] @ replicate 8 None"
  by (simp add: successor_rows_def ab2SubtreeMap_def promoted_Cons promoted_Nil
      structure_keys_def TRIANGLE_STRUCTURE_def map_option_case numeral_eq_Suc
      cong: option.case_cong)

lemma cycle_split_store:
  assumes fresh: "fresh st"
    and tri: "find_triangle st t = Some tri"
    and ab1: "slot_user (load_positions st t) 2 0 = Some a"
    and ab2: "slot_user (load_positions st t) 2 1 = Some b"
  shows "\<exists>st'. cycleTriangle st t = Inr st'
     \<and> triangles st' = filter (\<lambda>x. tri_id x \<noteq> t) (triangles st) @
          [new_triangle (clock st) (planType tri), new_triangle (clock st + 16) (planType tri)]
     \<and> map (occupant st' (clock st)) structure_keys
         = map (successor_rows (load_positions st t) ab1SubtreeMap a) structure_keys
     \<and> map (occupant st' (clock st + 16)) structure_keys
         = map (successor_rows (load_positions st t) ab2SubtreeMap b) structure_keys
     \<and> find_triangle st' t = None
     \<and> filter (\<lambda>p. triangleId p = t) (trianglePositions st') = []
     \<and> filter (\<lambda>p. triangleId p \<noteq> clock st \<and> triangleId p \<noteq> clock st + 16) (trianglePositions st')
         = filter (\<lambda>p. triangleId p \<noteq> t) (trianglePositions st)"
proof -
  define c where "c = clock st"
  define P where "P = filter (\<lambda>p. triangleId p \<noteq> t) (trianglePositions st)"
  define o1 where "o1 = successor_rows (load_positions st t) ab1SubtreeMap a"
  define o2 where "o2 = successor_rows (load_positions st t) ab2SubtreeMap b"
  define st' where "st' = st\<lparr>triangles := filter (\<lambda>x. tri_id x \<noteq> t) (triangles st) @
                 [new_triangle c (planType tri), new_triangle (c + 16) (planType tri)],
             trianglePositions := P @ triangle_rows c o1 @ triangle_rows (c + 16) o2,
             clock := c + 32\<rparr>"
  have cyc: "cycleTriangle st t = Inr st'"
    unfolding st'_def c_def P_def o1_def o2_def by (rule cycle_split_rows [OF assms])
  from find_triangle_Some [OF tri] fresh have lt: "t < c"
    by (auto simp: fresh_def list_all_iff c_def)
  have fP: "foreign c P" "foreign (c + 16) P"
    using fresh by (auto simp: fresh_def foreign_def list_all_iff c_def P_def)
  have pos1: "trianglePositions st' = P @ triangle_rows c o1 @ triangle_rows (c + 16) o2"
    and pos2: "trianglePositions st' = (P @ triangle_rows c o1) @ triangle_rows (c + 16) o2 @ []"
    by (simp_all add: st'_def)
  have occ1: "map (occupant st' c) structure_keys = map o1 structure_keys"
    using occupant_rows [OF pos1 fP(1)] by simp
  have occ2: "map (occupant st' (c + 16)) structure_keys = map o2 structure_keys"
    using occupant_rows [OF pos2] fP(2) foreign_rows_earlier [of c o1] by simp
  have gone: "find_triangle st' t = None"
    using lt by (auto simp: find_triangle_def st'_def find_None_iff new_triangle_def)
  have rows: "filter (\<lambda>p. triangleId p = t) (trianglePositions st') = []"
    using lt by (auto simp: st'_def P_def filter_empty_conv dest!: triangle_rows_member)
  have others: "filter (\<lambda>p. triangleId p \<noteq> c \<and> triangleId p \<noteq> c + 16) (trianglePositions st') = P"
  proof -
    have "filter (\<lambda>p. triangleId p \<noteq> c \<and> triangleId p \<noteq> c + 16) P = P"
      using fP by (auto simp: filter_id_conv foreign_def list_all_iff)
    moreover have "filter (\<lambda>p. triangleId p \<noteq> c \<and> triangleId p \<noteq> c + 16) (triangle_rows c o1) = []"
      "filter (\<lambda>p. triangleId p \<noteq> c \<and> triangleId p \<noteq> c + 16) (triangle_rows (c + 16) o2) = []"
      by (auto simp: filter_empty_conv dest!: triangle_rows_member)
    ultimately show ?thesis by (simp add: st'_def)
  qed
  from cyc occ1 occ2 gone rows others show ?thesis
    unfolding c_def o1_def o2_def P_def by (simp add: st'_def c_def)
qed

lemma well_formed_AB:
  assumes wf: "well_formed st t"
  shows "slot_user (load_positions st t) 2 0 = occupant_user st t ''AB1''"
    and "slot_user (load_positions st t) 2 1 = occupant_user st t ''AB2''"
proof -
  have "\<forall>(l', n', k')\<in>set TRIANGLE_STRUCTURE. (l' = 2 \<and> n' = 0) \<longleftrightarrow> k' = ''AB1''"
    by (simp add: TRIANGLE_STRUCTURE_def)
  from well_formed_slot_key [OF wf this]
  show "slot_user (load_positions st t) 2 0 = occupant_user st t ''AB1''"
    by (simp add: snap_user_occupant [OF wf])
  have "\<forall>(l', n', k')\<in>set TRIANGLE_STRUCTURE. (l' = 2 \<and> n' = 1) \<longleftrightarrow> k' = ''AB2''"
    by (simp add: TRIANGLE_STRUCTURE_def)
  from well_formed_slot_key [OF wf this]
  show "slot_user (load_positions st t) 2 1 = occupant_user st t ''AB2''"
    by (simp add: snap_user_occupant [OF wf])
qed

text \<open>
  C1: for a well-formed triangle \<open>t\<close> of a store with fresh identifiers whose slots \<open>AB1\<close> and
  \<open>AB2\<close> load the users \<open>x\<close> and \<open>y\<close>, \<open>cycleTriangle\<close> returns a store in which exactly two
  triangles of the same plan have been added, \<open>x\<close> is in slot \<open>A\<close> of the first and \<open>y\<close> in slot
  \<open>A\<close> of the second, every slot named on the right of the left (right) promotion map holds,
  in the first (second) new triangle, the user loaded by the slot named on its left in the old
  triangle, and neither the old triangle nor any of its rows is left.
\<close>

theorem cycle_split_promotes:
  assumes fresh: "fresh st"
    and wf: "well_formed st t"
    and tri: "find_triangle st t = Some tri"
    and ab1: "occupant_user st t ''AB1'' = Some x"
    and ab2: "occupant_user st t ''AB2'' = Some y"
  shows "\<exists>st'. cycleTriangle st t = Inr st'
     \<and> triangles st' = filter (\<lambda>r. tri_id r \<noteq> t) (triangles st) @
          [\<lparr>tri_id = clock st, planType = planType tri, isComplete = False, completedAt = None,
            payoutProcessed = False, tri_createdAt = clock st\<rparr>,
           \<lparr>tri_id = clock st + 16, planType = planType tri, isComplete = False,
            completedAt = None, payoutProcessed = False, tri_createdAt = clock st + 16\<rparr>]
     \<and> occupant st' (clock st) ''A'' = Some (user_id x)
     \<and> occupant st' (clock st + 16) ''A'' = Some (user_id y)
     \<and> (\<forall>(k, k')\<in>set ab1SubtreeMap.
           occupant st' (clock st) k' = map_option user_id (occupant_user st t k))
     \<and> (\<forall>(k, k')\<in>set ab2SubtreeMap.
           occupant st' (clock st + 16) k' = map_option user_id (occupant_user st t k))
     \<and> find_triangle st' t = None
     \<and> filter (\<lambda>p. triangleId p = t) (trianglePositions st') = []"
proof -
  define snap where "snap = load_positions st t"
  have s1: "slot_user snap 2 0 = Some x" and s2: "slot_user snap 2 1 = Some y"
    using well_formed_AB [OF wf] ab1 ab2 by (simp_all add: snap_def)
  from cycle_split_store [OF fresh tri s1 [unfolded snap_def] s2 [unfolded snap_def]]
  obtain st' where
    c: "cycleTriangle st t = Inr st'"
    and t: "triangles st' = filter (\<lambda>x. tri_id x \<noteq> t) (triangles st) @
          [new_triangle (clock st) (planType tri), new_triangle (clock st + 16) (planType tri)]"
    and l: "map (occupant st' (clock st)) structure_keys
         = map (successor_rows snap ab1SubtreeMap x) structure_keys"
    and r: "map (occupant st' (clock st + 16)) structure_keys
         = map (successor_rows snap ab2SubtreeMap y) structure_keys"
    and g: "find_triangle st' t = None"
       "filter (\<lambda>p. triangleId p = t) (trianglePositions st') = []"
    unfolding snap_def by blast
  have su: "snap_user snap k = occupant_user st t k" for k
    unfolding snap_def by (rule snap_user_occupant [OF wf])
  from l [unfolded successor_rows_left]
  have left: "occupant st' (clock st) ''A'' = Some (user_id x)"
    "\<forall>(k, k')\<in>set ab1SubtreeMap.
        occupant st' (clock st) k' = map_option user_id (occupant_user st t k)"
    by (simp_all add: structure_keys_def TRIANGLE_STRUCTURE_def ab1SubtreeMap_def su)
  from r [unfolded successor_rows_right]
  have right: "occupant st' (clock st + 16) ''A'' = Some (user_id y)"
    "\<forall>(k, k')\<in>set ab2SubtreeMap.
        occupant st' (clock st + 16) k' = map_option user_id (occupant_user st t k)"
    by (simp_all add: structure_keys_def TRIANGLE_STRUCTURE_def ab2SubtreeMap_def su)
  from c t left right g show ?thesis
    by (simp add: new_triangle_def)
qed

theorem cycle_split_promotes_witness:
  "fresh ex_full \<and> well_formed ex_full 0 \<and> find_triangle ex_full 0 = Some ex_triangle
   \<and> occupant_user ex_full 0 ''AB1'' = Some (ex_member ''u02'')
   \<and> occupant_user ex_full 0 ''AB2'' = Some (ex_member ''u03'')
   \<and> (\<exists>st'. cycleTriangle ex_full 0 = Inr st'
         \<and> map tri_id (triangles st') = [16, 32]
         \<and> occupant st' 16 ''A'' = Some ''u02'' \<and> occupant st' 32 ''A'' = Some ''u03''
         \<and> occupant st' 16 ''AB1'' = Some ''u04'' \<and> occupant st' 16 ''B2C2'' = Some ''u11''
         \<and> occupant st' 32 ''AB1'' = Some ''u06'' \<and> occupant st' 32 ''B2C2'' = Some ''u15''
         \<and> find_triangle st' 0 = None
         \<and> filter (\<lambda>p. triangleId p = 0) (trianglePositions st') = [])"
proof -
  have h1: "fresh ex_full"
    by (simp add: fresh_def ex_store_defs)
  have h2: "well_formed ex_full 0"
    by (simp add: well_formed_def by_level_position_def ex_store_defs)
  have h3: "find_triangle ex_full 0 = Some ex_triangle"
    by (simp add: find_triangle_def ex_store_defs)
  have h4: "occupant_user ex_full 0 ''AB1'' = Some (ex_member ''u02'')"
    by (simp add: occupant_user_def position_user_def find_user_def ex_store_defs)
  have h5: "occupant_user ex_full 0 ''AB2'' = Some (ex_member ''u03'')"
    by (simp add: occupant_user_def position_user_def find_user_def ex_store_defs)
  have o: "occupant_user ex_full 0 ''B1C1'' = Some (ex_member ''u04'')"
    "occupant_user ex_full 0 ''C2D2'' = Some (ex_member ''u11'')"
    "occupant_user ex_full 0 ''B2C1'' = Some (ex_member ''u06'')"
    "occupant_user ex_full 0 ''C4D2'' = Some (ex_member ''u15'')"
    by (simp_all add: occupant_user_def position_user_def find_user_def ex_store_defs)
  from cycle_split_promotes [OF h1 h2 h3 h4 h5] obtain st' where
    c: "cycleTriangle ex_full 0 = Inr st'"
    and t: "triangles st' = filter (\<lambda>r. tri_id r \<noteq> 0) (triangles ex_full) @
          [\<lparr>tri_id = clock ex_full, planType = planType ex_triangle, isComplete = False,
            completedAt = None, payoutProcessed = False, tri_createdAt = clock ex_full\<rparr>,
           \<lparr>tri_id = clock ex_full + 16, planType = planType ex_triangle, isComplete = False,
            completedAt = None, payoutProcessed = False, tri_createdAt = clock ex_full + 16\<rparr>]"
    and a: "occupant st' (clock ex_full) ''A'' = Some (user_id (ex_member ''u02''))"
      "occupant st' (clock ex_full + 16) ''A'' = Some (user_id (ex_member ''u03''))"
    and l: "\<forall>(k, k')\<in>set ab1SubtreeMap.
           occupant st' (clock ex_full) k' = map_option user_id (occupant_user ex_full 0 k)"
    and r: "\<forall>(k, k')\<in>set ab2SubtreeMap.
           occupant st' (clock ex_full + 16) k' = map_option user_id (occupant_user ex_full 0 k)"
    and g: "find_triangle st' 0 = None"
      "filter (\<lambda>p. triangleId p = 0) (trianglePositions st') = []"
    by blast
  have ck: "clock ex_full = 16" by (simp add: ex_full_def)
  from t have t': "map tri_id (triangles st') = [16, 32]"
    by (simp add: ex_full_def ex_triangle_def)
  from a have a': "occupant st' 16 ''A'' = Some ''u02''" "occupant st' 32 ''A'' = Some ''u03''"
    by (simp_all add: ck ex_member_def)
  from l o have l': "occupant st' 16 ''AB1'' = Some ''u04''" "occupant st' 16 ''B2C2'' = Some ''u11''"
    by (simp_all add: ck ab1SubtreeMap_def ex_member_def)
  from r o have r': "occupant st' 32 ''AB1'' = Some ''u06''" "occupant st' 32 ''B2C2'' = Some ''u15''"
    by (simp_all add: ck ab2SubtreeMap_def ex_member_def)
  from h1 h2 h3 h4 h5 c t' a' l' r' g show ?thesis by (intro conjI exI [of _ st'])
qed

text \<open>
  C9: the left promotion map has as sources the keys of the left half of levels 3 and 4, the
  right map those of the right half; together with \<open>AB1\<close> and \<open>AB2\<close> the sources are, each once,
  all keys of the structure but \<open>A\<close>. After \<open>cycleTriangle\<close> on a well-formed triangle whose slots
  \<open>AB1\<close> and \<open>AB2\<close> load users, the slots of the first new triangle, in structure order, hold
  the users loaded by \<open>AB1\<close> and the left sources followed by eight empty slots, and those of
  the second the users loaded by \<open>AB2\<close> and the right sources followed by eight empty slots: every
  occupant but that of \<open>A\<close>, level 4 included, is carried to one slot of one successor.
\<close>

theorem split_keeps_all_but_A:
  assumes fresh: "fresh st"
    and wf: "well_formed st t"
    and tri: "find_triangle st t = Some tri"
    and ab1: "occupant_user st t ''AB1'' = Some x"
    and ab2: "occupant_user st t ''AB2'' = Some y"
  shows "set (map fst ab1SubtreeMap) =
           set (map (\<lambda>(l, n, k). k)
                  (filter (\<lambda>(l, n, k). (l = 3 \<and> n < 2) \<or> (l = 4 \<and> n < 4)) TRIANGLE_STRUCTURE))
     \<and> set (map fst ab2SubtreeMap) =
           set (map (\<lambda>(l, n, k). k)
                  (filter (\<lambda>(l, n, k). (l = 3 \<and> 2 \<le> n) \<or> (l = 4 \<and> 4 \<le> n)) TRIANGLE_STRUCTURE))
     \<and> distinct ((''AB1'' # map fst ab1SubtreeMap) @ (''AB2'' # map fst ab2SubtreeMap))
     \<and> set ((''AB1'' # map fst ab1SubtreeMap) @ (''AB2'' # map fst ab2SubtreeMap))
          = set (map (\<lambda>(l, n, k). k) TRIANGLE_STRUCTURE) - {''A''}
     \<and> (\<exists>st'. cycleTriangle st t = Inr st'
          \<and> map (occupant st' (clock st)) (map (\<lambda>(l, n, k). k) TRIANGLE_STRUCTURE)
              = map (\<lambda>k. map_option user_id (occupant_user st t k)) (''AB1'' # map fst ab1SubtreeMap)
                @ replicate 8 None
          \<and> map (occupant st' (clock st + 16)) (map (\<lambda>(l, n, k). k) TRIANGLE_STRUCTURE)
              = map (\<lambda>k. map_option user_id (occupant_user st t k)) (''AB2'' # map fst ab2SubtreeMap)
                @ replicate 8 None)"
proof -
  define snap where "snap = load_positions st t"
  have s1: "slot_user snap 2 0 = Some x" and s2: "slot_user snap 2 1 = Some y"
    using well_formed_AB [OF wf] ab1 ab2 by (simp_all add: snap_def)
  from cycle_split_store [OF fresh tri s1 [unfolded snap_def] s2 [unfolded snap_def]]
  obtain st' where
    c: "cycleTriangle st t = Inr st'"
    and l: "map (occupant st' (clock st)) structure_keys
         = map (successor_rows snap ab1SubtreeMap x) structure_keys"
    and r: "map (occupant st' (clock st + 16)) structure_keys
         = map (successor_rows snap ab2SubtreeMap y) structure_keys"
    unfolding snap_def by blast
  have su: "snap_user snap k = occupant_user st t k" for k
    unfolding snap_def by (rule snap_user_occupant [OF wf])
  have left: "map (occupant st' (clock st)) (map (\<lambda>(l, n, k). k) TRIANGLE_STRUCTURE)
      = map (\<lambda>k. map_option user_id (occupant_user st t k)) (''AB1'' # map fst ab1SubtreeMap)
          @ replicate 8 None"
    using l [unfolded successor_rows_left] ab1
    by (simp add: structure_keys_def ab1SubtreeMap_def su)
  have right: "map (occupant st' (clock st + 16)) (map (\<lambda>(l, n, k). k) TRIANGLE_STRUCTURE)
      = map (\<lambda>k. map_option user_id (occupant_user st t k)) (''AB2'' # map fst ab2SubtreeMap)
          @ replicate 8 None"
    using r [unfolded successor_rows_right] ab2
    by (simp add: structure_keys_def ab2SubtreeMap_def su)
  have cover:
    "set (map fst ab1SubtreeMap) =
           set (map (\<lambda>(l, n, k). k)
                  (filter (\<lambda>(l, n, k). (l = 3 \<and> n < 2) \<or> (l = 4 \<and> n < 4)) TRIANGLE_STRUCTURE))"
    "set (map fst ab2SubtreeMap) =
           set (map (\<lambda>(l, n, k). k)
                  (filter (\<lambda>(l, n, k). (l = 3 \<and> 2 \<le> n) \<or> (l = 4 \<and> 4 \<le> n)) TRIANGLE_STRUCTURE))"
    by (simp_all add: ab1SubtreeMap_def ab2SubtreeMap_def TRIANGLE_STRUCTURE_def)
  have part: "distinct ((''AB1'' # map fst ab1SubtreeMap) @ (''AB2'' # map fst ab2SubtreeMap))"
    by (simp add: ab1SubtreeMap_def ab2SubtreeMap_def)
  have all: "set ((''AB1'' # map fst ab1SubtreeMap) @ (''AB2'' # map fst ab2SubtreeMap))
          = set (map (\<lambda>(l, n, k). k) TRIANGLE_STRUCTURE) - {''A''}"
    by (simp add: ab1SubtreeMap_def ab2SubtreeMap_def TRIANGLE_STRUCTURE_def) auto
  from c left right cover part all show ?thesis by blast
qed

theorem split_keeps_all_but_A_witness:
  "fresh ex_full \<and> well_formed ex_full 0 \<and> find_triangle ex_full 0 = Some ex_triangle
   \<and> occupant_user ex_full 0 ''AB1'' = Some (ex_member ''u02'')
   \<and> occupant_user ex_full 0 ''AB2'' = Some (ex_member ''u03'')
   \<and> (\<exists>st'. cycleTriangle ex_full 0 = Inr st'
         \<and> map (occupant st' 16) (map (\<lambda>(l, n, k). k) TRIANGLE_STRUCTURE)
             = map Some [''u02'', ''u04'', ''u05'', ''u08'', ''u09'', ''u10'', ''u11'']
               @ replicate 8 None
         \<and> map (occupant st' 32) (map (\<lambda>(l, n, k). k) TRIANGLE_STRUCTURE)
             = map Some [''u03'', ''u06'', ''u07'', ''u12'', ''u13'', ''u14'', ''u15'']
               @ replicate 8 None)"
proof -
  have h1: "fresh ex_full"
    by (simp add: fresh_def ex_store_defs)
  have h2: "well_formed ex_full 0"
    by (simp add: well_formed_def by_level_position_def ex_store_defs)
  have h3: "find_triangle ex_full 0 = Some ex_triangle"
    by (simp add: find_triangle_def ex_store_defs)
  have h4: "occupant_user ex_full 0 ''AB1'' = Some (ex_member ''u02'')"
    by (simp add: occupant_user_def position_user_def find_user_def ex_store_defs)
  have h5: "occupant_user ex_full 0 ''AB2'' = Some (ex_member ''u03'')"
    by (simp add: occupant_user_def position_user_def find_user_def ex_store_defs)
  have o: "map (\<lambda>k. map_option user_id (occupant_user ex_full 0 k)) (''AB1'' # map fst ab1SubtreeMap)
      = map Some [''u02'', ''u04'', ''u05'', ''u08'', ''u09'', ''u10'', ''u11'']"
    "map (\<lambda>k. map_option user_id (occupant_user ex_full 0 k)) (''AB2'' # map fst ab2SubtreeMap)
      = map Some [''u03'', ''u06'', ''u07'', ''u12'', ''u13'', ''u14'', ''u15'']"
    by (simp_all add: occupant_user_def position_user_def find_user_def ex_store_defs
        ab1SubtreeMap_def ab2SubtreeMap_def)
  have ck: "clock ex_full = 16" by (simp add: ex_full_def)
  from split_keeps_all_but_A [OF h1 h2 h3 h4 h5] obtain st' where
    "cycleTriangle ex_full 0 = Inr st'"
    "map (occupant st' (clock ex_full)) (map (\<lambda>(l, n, k). k) TRIANGLE_STRUCTURE)
       = map (\<lambda>k. map_option user_id (occupant_user ex_full 0 k)) (''AB1'' # map fst ab1SubtreeMap)
         @ replicate 8 None"
    "map (occupant st' (clock ex_full + 16)) (map (\<lambda>(l, n, k). k) TRIANGLE_STRUCTURE)
       = map (\<lambda>k. map_option user_id (occupant_user ex_full 0 k)) (''AB2'' # map fst ab2SubtreeMap)
         @ replicate 8 None"
    by blast
  then have "\<exists>st'. cycleTriangle ex_full 0 = Inr st'
         \<and> map (occupant st' 16) (map (\<lambda>(l, n, k). k) TRIANGLE_STRUCTURE)
             = map Some [''u02'', ''u04'', ''u05'', ''u08'', ''u09'', ''u10'', ''u11'']
               @ replicate 8 None
         \<and> map (occupant st' 32) (map (\<lambda>(l, n, k). k) TRIANGLE_STRUCTURE)
             = map Some [''u03'', ''u06'', ''u07'', ''u12'', ''u13'', ''u14'', ''u15'']
               @ replicate 8 None"
    unfolding o ck by auto
  with h1 h2 h3 h4 h5 show ?thesis by blast
qed

section \<open>Placement\<close>

lemma sort_key_hd:
  assumes "sort_key f xs = y # ys"
  shows "y \<in> set xs \<and> (\<forall>x\<in>set xs. f y \<le> f x)"
proof -
  have "set (sort_key f xs) = set xs" by simp
  with assms have s: "set xs = insert y (set ys)" by simp
  have "sorted (map f (sort_key f xs))" by (rule sorted_sort_key)
  with assms have "\<forall>z\<in>set ys. f y \<le> f z" by simp
  with s show ?thesis by auto
qed

lemma sort_key_last:
  assumes "rev (sort_key f xs) = y # ys"
  shows "y \<in> set xs \<and> (\<forall>x\<in>set xs. f x \<le> f y)"
proof -
  from assms have e: "sort_key f xs = rev ys @ [y]" by (simp add: rev_eq_Cons_iff)
  have "set (sort_key f xs) = set xs" by simp
  with e have s: "set xs = insert y (set ys)" by simp
  have "sorted (map f (sort_key f xs))" by (rule sorted_sort_key)
  with e have "\<forall>z\<in>set ys. f z \<le> f y" by (simp add: sorted_append)
  with s show ?thesis by auto
qed

lemma find_open_position_Some:
  assumes "find_open_position st t = Some p"
  shows "p \<in> set (trianglePositions st) \<and> triangleId p = t \<and> userId p = None
     \<and> (\<forall>q\<in>set (trianglePositions st). triangleId q = t \<and> userId q = None \<longrightarrow>
           (level p, position p) \<le> (level q, position q))"
proof -
  let ?F = "filter (\<lambda>p. triangleId p = t \<and> userId p = None) (trianglePositions st)"
  from assms obtain ys where "sort_key (\<lambda>p. (level p, position p)) ?F = p # ys"
    by (auto simp: find_open_position_def by_level_position_def split: list.splits)
  from sort_key_hd [OF this] show ?thesis by auto
qed

lemma find_open_position_None_iff:
  "find_open_position st t = None \<longleftrightarrow>
     \<not> list_ex (\<lambda>p. triangleId p = t \<and> userId p = None) (trianglePositions st)"
proof -
  let ?F = "filter (\<lambda>p. triangleId p = t \<and> userId p = None) (trianglePositions st)"
  have "find_open_position st t = None \<longleftrightarrow> by_level_position ?F = []"
    by (cases "by_level_position ?F")
       (simp_all add: find_open_position_def del: by_level_position_Nil)
  also have "\<dots> \<longleftrightarrow> ?F = []" by simp
  also have "\<dots> \<longleftrightarrow> \<not> list_ex (\<lambda>p. triangleId p = t \<and> userId p = None) (trianglePositions st)"
    by (auto simp: filter_empty_conv list_ex_iff)
  finally show ?thesis .
qed

lemma createTriangle_open:
  "createTriangle st pl = (t, st1) \<Longrightarrow>
     find_open_position st1 (tri_id t) \<noteq> None \<and> find_triangle st1 (tri_id t) \<noteq> None
     \<and> users st1 = users st \<and> plans st1 = plans st \<and> transactions st1 = transactions st"
  by (auto simp: createTriangle_def Let_def find_open_position_None_iff TRIANGLE_STRUCTURE_def
      find_triangle_def find_None_iff)

lemma referrer_triangle_Some:
  assumes "referrer_triangle st u r = Some tri"
  shows "\<exists>rid ref rp. candidate_referrer r (uplineId u) = Some rid \<and> find_user st rid = Some ref
     \<and> newest_position st rid rp \<and> find_triangle st (triangleId rp) = Some tri
     \<and> accepts st u tri"
proof -
  from assms obtain rid where rid: "candidate_referrer r (uplineId u) = Some rid"
    by (auto simp: referrer_triangle_def split: option.splits)
  with assms obtain ref where ref: "find_user st rid = Some ref"
    by (auto simp: referrer_triangle_def split: option.splits)
  then have id: "user_id ref = rid" by (auto simp: find_user_def find_Some_iff)
  let ?F = "filter (\<lambda>p. userId p = Some rid) (trianglePositions st)"
  from assms rid ref id obtain rp rest where rp: "newest_first ?F = rp # rest"
    by (auto simp: referrer_triangle_def split: option.splits list.splits)
  from sort_key_last [OF rp [unfolded newest_first_def]]
  have np: "newest_position st rid rp"
    by (auto simp: newest_position_def list_all_iff)
  from assms rid ref id rp have tri: "find_triangle st (triangleId rp) = Some tri"
    and ok: "planType tri = plan u" "\<not> isComplete tri"
      "find_open_position st (triangleId rp) \<noteq> None"
    by (auto simp: referrer_triangle_def split: option.splits if_splits)
  from tri have "tri_id tri = triangleId rp" by (auto simp: find_triangle_def find_Some_iff)
  with ok have "accepts st u tri"
    by (simp add: accepts_def find_open_position_None_iff)
  with rid ref np tri show ?thesis by blast
qed

lemma referrer_triangle_newest:
  assumes rid: "candidate_referrer r (uplineId u) = Some rid"
    and ref: "find_user st rid = Some ref"
    and np: "newest_position st rid rp"
    and one: "\<forall>q. newest_position st rid q \<longrightarrow> triangleId q = triangleId rp"
    and tri: "find_triangle st (triangleId rp) = Some tri"
    and ok: "accepts st u tri"
  shows "referrer_triangle st u r = Some tri"
proof -
  from ref have id: "user_id ref = rid" by (auto simp: find_user_def find_Some_iff)
  let ?F = "filter (\<lambda>p. userId p = Some rid) (trianglePositions st)"
  from np have "rp \<in> set ?F" by (simp add: newest_position_def)
  moreover have "set (newest_first ?F) = set ?F" by (simp add: newest_first_def)
  ultimately have "newest_first ?F \<noteq> []" by auto
  then obtain rp' rest where rp': "newest_first ?F = rp' # rest"
    by (cases "newest_first ?F") auto
  from sort_key_last [OF rp' [unfolded newest_first_def]]
  have "newest_position st rid rp'"
    by (auto simp: newest_position_def list_all_iff)
  with one have same: "triangleId rp' = triangleId rp" by blast
  from tri have "tri_id tri = triangleId rp" by (auto simp: find_triangle_def find_Some_iff)
  with ok have "find_open_position st (triangleId rp) \<noteq> None"
    "planType tri = plan u" "\<not> isComplete tri"
    by (simp_all add: accepts_def find_open_position_None_iff)
  with rid ref id rp' same tri show ?thesis
    by (auto simp: referrer_triangle_def)
qed

lemma find_oldest_open_triangle_Some:
  assumes "find_oldest_open_triangle st (plan u) = Some t0"
  shows "t0 \<in> set (triangles st) \<and> accepts st u t0
     \<and> (\<forall>t'\<in>set (triangles st). accepts st u t' \<longrightarrow> tri_createdAt t0 \<le> tri_createdAt t')"
proof -
  let ?Q = "filter (\<lambda>t. planType t = plan u \<and> \<not> isComplete t \<and>
                          list_ex (\<lambda>p. triangleId p = tri_id t \<and> userId p = None)
                                  (trianglePositions st)) (triangles st)"
  from assms obtain ys where "sort_key tri_createdAt ?Q = t0 # ys"
    by (auto simp: find_oldest_open_triangle_def split: list.splits)
  from sort_key_hd [OF this] show ?thesis by (auto simp: accepts_def)
qed

lemma find_oldest_open_triangle_None_iff:
  "find_oldest_open_triangle st (plan u) = None \<longleftrightarrow> (\<forall>t'\<in>set (triangles st). \<not> accepts st u t')"
proof -
  let ?Q = "filter (\<lambda>t. planType t = plan u \<and> \<not> isComplete t \<and>
                          list_ex (\<lambda>p. triangleId p = tri_id t \<and> userId p = None)
                                  (trianglePositions st)) (triangles st)"
  have "find_oldest_open_triangle st (plan u) = None \<longleftrightarrow> sort_key tri_createdAt ?Q = []"
    by (cases "sort_key tri_createdAt ?Q") (simp_all add: find_oldest_open_triangle_def)
  also have "\<dots> \<longleftrightarrow> ?Q = []"
  proof
    assume "sort_key tri_createdAt ?Q = []"
    then have "length (sort_key tri_createdAt ?Q) = 0" by simp
    then show "?Q = []" by simp
  next
    assume "?Q = []"
    then show "sort_key tri_createdAt ?Q = []" by simp
  qed
  also have "\<dots> \<longleftrightarrow> (\<forall>t'\<in>set (triangles st). \<not> accepts st u t')"
    by (auto simp: filter_empty_conv accepts_def)
  finally show ?thesis .
qed

lemma select_target_ok:
  assumes "select_target st u r = (t, st1)"
  shows "find_open_position st1 (tri_id t) \<noteq> None \<and> find_triangle st1 (tri_id t) \<noteq> None
     \<and> users st1 = users st \<and> plans st1 = plans st \<and> transactions st1 = transactions st"
proof (cases "referrer_triangle st u r")
  case (Some tri)
  with assms have e: "t = tri" "st1 = st" by (simp_all add: select_target_def)
  from referrer_triangle_Some [OF Some] obtain rid ref rp where
    "candidate_referrer r (uplineId u) = Some rid" "find_user st rid = Some ref"
    "newest_position st rid rp"
    and rp: "find_triangle st (triangleId rp) = Some tri" "accepts st u tri" by blast
  then have "tri_id tri = triangleId rp" by (auto simp: find_triangle_def find_Some_iff)
  with rp show ?thesis using e by (auto simp: accepts_def find_open_position_None_iff)
next
  case None
  show ?thesis
  proof (cases "find_oldest_open_triangle st (plan u)")
    case (Some tri)
    with None assms have e: "t = tri" "st1 = st" by (simp_all add: select_target_def)
    from find_oldest_open_triangle_Some [OF Some]
    have "tri \<in> set (triangles st)" "accepts st u tri" by simp_all
    then show ?thesis using e
      by (auto simp: accepts_def find_open_position_None_iff find_triangle_def find_None_iff)
  next
    case n: None
    with None assms have "createTriangle st (plan u) = (t, st1)" by (simp add: select_target_def)
    from createTriangle_open [OF this] show ?thesis by simp
  qed
qed

lemma place_user_ok:
  assumes user: "find_user st uid = Some u"
    and sel: "select_target st u r = (t, st1)"
  shows "\<exists>p. find_open_position st1 (tri_id t) = Some p
     \<and> place_user st uid r =
         Inr (p, t,
              count_filled (st1\<lparr>trianglePositions :=
                   map (\<lambda>q. if pos_id q = pos_id p then q\<lparr>userId := Some uid\<rparr> else q)
                     (trianglePositions st1)\<rparr>) (tri_id t),
              st1\<lparr>trianglePositions :=
                   map (\<lambda>q. if pos_id q = pos_id p then q\<lparr>userId := Some uid\<rparr> else q)
                     (trianglePositions st1)\<rparr>)"
proof -
  from select_target_ok [OF sel] obtain p where p: "find_open_position st1 (tri_id t) = Some p"
    by auto
  from find_open_position_Some [OF p] have "list_ex (\<lambda>q. pos_id q = pos_id p) (trianglePositions st1)"
    by (auto simp: list_ex_iff)
  from update_position_Inr [OF this, of "Some uid"] user sel p show ?thesis
    by (simp add: place_user_def)
qed

lemma completion_payout_total:
  assumes "find_triangle st t \<noteq> None"
  shows "\<exists>st'. completion_payout st t = Inr st' \<and> triangles st' = triangles st
     \<and> trianglePositions st' = trianglePositions st"
proof (cases "find (\<lambda>p. triangleId p = t \<and> level p = 1 \<and> position p = 0) (trianglePositions st)")
  case None
  then show ?thesis by (simp add: completion_payout_def)
next
  case (Some pa)
  then have pa: "triangleId pa = t" by (auto simp: find_Some_iff)
  from assms obtain tri where tri: "find_triangle st t = Some tri" by auto
  show ?thesis
  proof (cases "position_user st pa")
    case None
    with Some show ?thesis by (simp add: completion_payout_def)
  next
    case x: (Some x)
    show ?thesis
    proof (cases "find_plan st (planType tri)")
      case None
      from completion_payout_skipped [OF tri Some x None] show ?thesis by simp
    next
      case pl: (Some pl)
      from completion_payout_paid [OF tri Some x pl] show ?thesis by simp
    qed
  qed
qed

lemma handleTriangleCompletion_total:
  assumes "find_triangle st t \<noteq> None"
  shows "\<exists>st'. handleTriangleCompletion st t = Inr st'"
proof -
  from assms obtain tri where "find_triangle st t = Some tri" by auto
  from mark_complete_Inr [OF this] obtain st1 where
    m: "mark_complete st t = Inr st1" "find_triangle st1 t \<noteq> None" by auto
  from completion_payout_total [OF m(2)] obtain st2 where
    p: "completion_payout st1 t = Inr st2" "triangles st2 = triangles st1" by blast
  with m(2) have "find_triangle st2 t \<noteq> None" by (simp add: find_triangle_def)
  from cycleTriangle_total [OF this] obtain st' where "cycleTriangle st2 t = Inr st'" by blast
  with m p show ?thesis by (simp add: handleTriangleCompletion_def)
qed

lemma assign_ok:
  assumes user: "find_user st uid = Some u"
    and sel: "select_target st u r = (t, st1)"
  shows "\<exists>p st2 st'. find_open_position st1 (tri_id t) = Some p
     \<and> st2 = st1\<lparr>trianglePositions :=
                   map (\<lambda>q. if pos_id q = pos_id p then q\<lparr>userId := Some uid\<rparr> else q)
                     (trianglePositions st1)\<rparr>
     \<and> place_user st uid r = Inr (p, t, count_filled st2 (tri_id t), st2)
     \<and> assignUserToTriangle st uid r = Inr (p, st')
     \<and> (if count_filled st2 (tri_id t) = 15
         then handleTriangleCompletion st2 (tri_id t) = Inr st' else st' = st2)"
proof -
  from place_user_ok [OF user sel] obtain p where
    p: "find_open_position st1 (tri_id t) = Some p"
    and pl: "place_user st uid r =
         Inr (p, t,
              count_filled (st1\<lparr>trianglePositions :=
                   map (\<lambda>q. if pos_id q = pos_id p then q\<lparr>userId := Some uid\<rparr> else q)
                     (trianglePositions st1)\<rparr>) (tri_id t),
              st1\<lparr>trianglePositions :=
                   map (\<lambda>q. if pos_id q = pos_id p then q\<lparr>userId := Some uid\<rparr> else q)
                     (trianglePositions st1)\<rparr>)" by blast
  define st2 where "st2 = st1\<lparr>trianglePositions :=
                   map (\<lambda>q. if pos_id q = pos_id p then q\<lparr>userId := Some uid\<rparr> else q)
                     (trianglePositions st1)\<rparr>"
  from pl have pl': "place_user st uid r = Inr (p, t, count_filled st2 (tri_id t), st2)"
    by (simp add: st2_def)
  from select_target_ok [OF sel] have "find_triangle st2 (tri_id t) \<noteq> None"
    by (simp add: st2_def find_triangle_def)
  from handleTriangleCompletion_total [OF this] obtain st3 where
    h: "handleTriangleCompletion st2 (tri_id t) = Inr st3" by blast
  define st' where "st' = (if count_filled st2 (tri_id t) = 15 then st3 else st2)"
  from pl' h have a: "assignUserToTriangle st uid r = Inr (p, st')"
    by (simp add: assignUserToTriangle_def st'_def)
  have c: "if count_filled st2 (tri_id t) = 15
         then handleTriangleCompletion st2 (tri_id t) = Inr st' else st' = st2"
    using h by (simp add: st'_def)
  from p st2_def pl' a c show ?thesis by blast
qed

lemma filled_positions_upd_other:
  assumes "k0 \<notin> set (map (\<lambda>(l, n, k). k) S)"
  shows "filled_positions t ts i (occ(k0 := v)) S = filled_positions t ts i occ S"
  by (rule filled_positions_cong) (use assms in \<open>auto simp: image_iff\<close>)

lemma filled_positions_levels:
  "map (\<lambda>p. (level p, position p)) (filled_positions t ts i occ S) = map (\<lambda>(l, n, k). (l, n)) S"
  by (induction S arbitrary: i) auto

lemma filled_positions_all_open:
  "filter (\<lambda>p. userId p = None) (filled_positions t ts i (\<lambda>_. None) S)
     = filled_positions t ts i (\<lambda>_. None) S"
  by (induction S arbitrary: i) auto

lemma filled_positions_length [simp]: "length (filled_positions t ts i occ S) = length S"
  by (induction S arbitrary: i) auto

lemma filled_positions_nth:
  "j < length S \<Longrightarrow>
     filled_positions t ts i occ S ! j =
       \<lparr>pos_id = i + j, triangleId = t, level = fst (S ! j), position = fst (snd (S ! j)),
        positionKey = snd (snd (S ! j)), userId = occ (snd (snd (S ! j))), pos_createdAt = ts\<rparr>"
proof (induction S arbitrary: i j)
  case Nil
  then show ?case by simp
next
  case (Cons e S)
  obtain l n k where e: "e = (l, n, k)" by (cases e)
  show ?case
  proof (cases j)
    case 0
    with e show ?thesis by simp
  next
    case (Suc j')
    with Cons.prems have "j' < length S" by simp
    from Cons.IH [OF this, of "Suc i"] Suc e show ?thesis by simp
  qed
qed

lemma filled_positions_open:
  assumes "distinct (map (\<lambda>(l, n, k). k) S)" and "length done \<le> length S"
  shows "filter (\<lambda>p. userId p = None)
           (filled_positions t ts i (map_of (zip (map (\<lambda>(l, n, k). k) S) done)) S)
         = drop (length done) (filled_positions t ts i (\<lambda>_. None) S)"
  using assms
proof (induction S arbitrary: i "done")
  case Nil
  then show ?case by simp
next
  case (Cons e S)
  obtain l n k0 where e: "e = (l, n, k0)" by (cases e)
  show ?case
  proof (cases "done")
    case Nil
    then show ?thesis using filled_positions_all_open [of t ts i "e # S"] by simp
  next
    case (Cons d ds)
    from Cons.prems e have k0: "k0 \<notin> set (map (\<lambda>(l, n, k). k) S)"
      and dist: "distinct (map (\<lambda>(l, n, k). k) S)" by auto
    from Cons Cons.prems have len: "length ds \<le> length S" by simp
    from Cons.IH [OF dist len, of "Suc i"] filled_positions_upd_other [OF k0]
    show ?thesis using Cons e by (simp add: fun_upd_same del: fun_upd_apply)
  qed
qed

lemma filled_positions_place:
  assumes "distinct (map (\<lambda>(l, n, k). k) S)" and "length done < length S"
  shows "map (\<lambda>q. if pos_id q = i + length done then q\<lparr>userId := Some uid\<rparr> else q)
           (filled_positions t ts i (map_of (zip (map (\<lambda>(l, n, k). k) S) done)) S)
         = filled_positions t ts i (map_of (zip (map (\<lambda>(l, n, k). k) S) (done @ [uid]))) S"
  using assms
proof (induction S arbitrary: i "done")
  case Nil
  then show ?case by simp
next
  case (Cons e S)
  obtain l n k0 where e: "e = (l, n, k0)" by (cases e)
  from Cons.prems e have k0: "k0 \<notin> set (map (\<lambda>(l, n, k). k) S)"
    and dist: "distinct (map (\<lambda>(l, n, k). k) S)" by auto
  show ?case
  proof (cases "done")
    case Nil
    have "map (\<lambda>q. if pos_id q = i then q\<lparr>userId := Some uid\<rparr> else q)
            (filled_positions t ts (Suc i) (\<lambda>_. None) S) = filled_positions t ts (Suc i) (\<lambda>_. None) S"
      by (rule filled_positions_no_id) simp
    with Nil e filled_positions_upd_other [OF k0, of t ts "Suc i" "\<lambda>_. None" "Some uid"]
    show ?thesis by (simp add: fun_upd_same del: fun_upd_apply)
  next
    case (Cons d ds)
    with Cons.prems have len: "length ds < length S" by simp
    from Cons.IH [OF dist len, of "Suc i"] filled_positions_upd_other [OF k0]
    show ?thesis using Cons e by (simp add: fun_upd_same del: fun_upd_apply)
  qed
qed

lemma filled_positions_count:
  assumes "distinct (map (\<lambda>(l, n, k). k) S)" and "length done \<le> length S"
  shows "length (filter (\<lambda>p. userId p \<noteq> None)
           (filled_positions t ts i (map_of (zip (map (\<lambda>(l, n, k). k) S) done)) S))
         = length done"
  using assms
proof (induction S arbitrary: i "done")
  case Nil
  then show ?case by simp
next
  case (Cons e S)
  obtain l n k0 where e: "e = (l, n, k0)" by (cases e)
  from Cons.prems e have k0: "k0 \<notin> set (map (\<lambda>(l, n, k). k) S)"
    and dist: "distinct (map (\<lambda>(l, n, k). k) S)" by auto
  show ?case
  proof (cases "done")
    case Nil
    have "filter (\<lambda>p. userId p \<noteq> None) (filled_positions t ts j (\<lambda>_. None) S') = []" for j S'
      by (induction S' arbitrary: j) auto
    with Nil show ?thesis by simp
  next
    case (Cons d ds)
    with Cons.prems have len: "length ds \<le> length S" by simp
    from Cons.IH [OF dist len, of "Suc i"] filled_positions_upd_other [OF k0]
    show ?thesis using Cons e by (simp add: fun_upd_same del: fun_upd_apply)
  qed
qed

lemma filled_positions_occupants:
  assumes "distinct (map (\<lambda>(l, n, k). k) S)" and "length done \<le> length S"
  shows "map (map_of (zip (map (\<lambda>(l, n, k). k) S) done)) (map (\<lambda>(l, n, k). k) S)
         = map Some done @ replicate (length S - length done) None"
  using assms
proof (induction S arbitrary: "done")
  case Nil
  then show ?case by simp
next
  case (Cons e S)
  obtain l n k0 where e: "e = (l, n, k0)" by (cases e)
  from Cons.prems e have k0: "k0 \<notin> set (map (\<lambda>(l, n, k). k) S)"
    and dist: "distinct (map (\<lambda>(l, n, k). k) S)" by auto
  show ?case
  proof (cases "done")
    case Nil
    then show ?thesis by (simp add: map_replicate_const)
  next
    case (Cons d ds)
    with Cons.prems have len: "length ds \<le> length S" by simp
    have "map ((map_of (zip (map (\<lambda>(l, n, k). k) S) ds))(k0 \<mapsto> d)) (map (\<lambda>(l, n, k). k) S)
        = map (map_of (zip (map (\<lambda>(l, n, k). k) S) ds)) (map (\<lambda>(l, n, k). k) S)"
      using k0 by (intro map_cong) (force simp: image_iff)+
    with Cons.IH [OF dist len] Cons e show ?thesis
      by (simp add: fun_upd_same del: fun_upd_apply)
  qed
qed

lemma foreign_filter:
  "foreign c ps \<Longrightarrow> filter (\<lambda>p. triangleId p = c \<and> Q p) ps = []"
  by (auto simp: foreign_def list_all_iff filter_empty_conv)

lemma triangle_rows_filter:
  "filter (\<lambda>p. triangleId p = c \<and> Q p) (triangle_rows c occ) = filter Q (triangle_rows c occ)"
  by (rule filter_cong) (auto dest: triangle_rows_member)

lemma triangle_rows_sorted:
  "sorted (map (\<lambda>p. (level p, position p)) (filter Q (triangle_rows c occ)))"
proof -
  have "sorted (map (\<lambda>p. (level p, position p)) (triangle_rows c occ))"
    by (simp add: triangle_rows_def filled_positions_levels TRIANGLE_STRUCTURE_def)
  then show ?thesis by (rule sorted_filter)
qed

lemma structure_length: "length TRIANGLE_STRUCTURE = 15"
  by (simp add: TRIANGLE_STRUCTURE_def)

lemma open_rows:
  assumes pos: "trianglePositions st = pre @ triangle_rows c occ @ post"
    and pre: "foreign c pre" and post: "foreign c post"
  shows "find_open_position st c =
           (case filter (\<lambda>p. userId p = None) (triangle_rows c occ) of
              [] \<Rightarrow> None | p # _ \<Rightarrow> Some p)"
proof -
  have "filter (\<lambda>p. triangleId p = c \<and> userId p = None) (trianglePositions st)
      = filter (\<lambda>p. userId p = None) (triangle_rows c occ)"
    unfolding pos filter_append
    by (simp add: foreign_filter [OF pre] foreign_filter [OF post] triangle_rows_filter)
  moreover have "by_level_position (filter (\<lambda>p. userId p = None) (triangle_rows c occ))
      = filter (\<lambda>p. userId p = None) (triangle_rows c occ)"
    unfolding by_level_position_def
    by (rule sort_key_id_if_sorted) (rule triangle_rows_sorted)
  ultimately show ?thesis by (simp add: find_open_position_def)
qed

lemma count_rows:
  assumes pos: "trianglePositions st = pre @ triangle_rows c occ @ post"
    and pre: "foreign c pre" and post: "foreign c post"
  shows "count_filled st c = length (filter (\<lambda>p. userId p \<noteq> None) (triangle_rows c occ))"
  unfolding count_filled_def pos filter_append
  by (simp add: foreign_filter [OF pre] foreign_filter [OF post] triangle_rows_filter)

lemma seated_open:
  assumes "length done < 15"
  shows "filter (\<lambda>p. userId p = None) (triangle_rows c (seated done))
           = triangle_rows c (\<lambda>_. None) ! length done
             # drop (Suc (length done)) (triangle_rows c (\<lambda>_. None))"
proof -
  from assms have "length done \<le> length TRIANGLE_STRUCTURE" by (simp add: structure_length)
  from filled_positions_open [OF structure_keys_distinct this, of c "Suc c" "Suc c"]
  have "filter (\<lambda>p. userId p = None) (triangle_rows c (seated done))
      = drop (length done) (triangle_rows c (\<lambda>_. None))"
    by (simp add: triangle_rows_def seated_def structure_keys_def)
  moreover from assms have "length done < length (triangle_rows c (\<lambda>_. None))"
    by (simp add: triangle_rows_def structure_length)
  ultimately show ?thesis by (simp add: Cons_nth_drop_Suc)
qed

lemma triangle_rows_nth_id:
  "j < 15 \<Longrightarrow> pos_id (triangle_rows c occ ! j) = Suc c + j"
  by (simp add: triangle_rows_def filled_positions_nth structure_length)

lemma seated_place:
  assumes "length done < 15"
  shows "map (\<lambda>q. if pos_id q = Suc c + length done then q\<lparr>userId := Some uid\<rparr> else q)
           (triangle_rows c (seated done))
         = triangle_rows c (seated (done @ [uid]))"
proof -
  from assms have "length done < length TRIANGLE_STRUCTURE" by (simp add: structure_length)
  from filled_positions_place [OF structure_keys_distinct this, of "Suc c" uid c "Suc c"]
  show ?thesis by (simp add: triangle_rows_def seated_def structure_keys_def)
qed

lemma seated_count:
  assumes "length done \<le> 15"
  shows "length (filter (\<lambda>p. userId p \<noteq> None) (triangle_rows c (seated done))) = length done"
proof -
  from assms have "length done \<le> length TRIANGLE_STRUCTURE" by (simp add: structure_length)
  from filled_positions_count [OF structure_keys_distinct this, of c "Suc c" "Suc c"]
  show ?thesis by (simp add: triangle_rows_def seated_def structure_keys_def)
qed

lemma seated_occupants:
  assumes "length done \<le> 15"
  shows "map (seated done) structure_keys = map Some done @ replicate (15 - length done) None"
proof -
  from assms have "length done \<le> length TRIANGLE_STRUCTURE" by (simp add: structure_length)
  from filled_positions_occupants [OF structure_keys_distinct this]
  show ?thesis by (simp add: seated_def structure_keys_def structure_length)
qed

lemma seated_Nil: "seated [] = (\<lambda>_. None)"
  by (simp add: seated_def)

text \<open>One placement into a triangle whose first slots are taken.\<close>

lemma place_step:
  assumes user: "find_user st uid = Some u"
    and sel: "select_target st u r = (t, st1)"
    and tid: "tri_id t = c"
    and pos: "trianglePositions st1 = pre @ triangle_rows c (seated done) @ post"
    and pre: "foreign c pre" and post: "foreign c post"
    and len: "length done < 15"
  shows "place_user st uid r =
           Inr (triangle_rows c (\<lambda>_. None) ! length done, t, Suc (length done),
                st1\<lparr>trianglePositions := pre @ triangle_rows c (seated (done @ [uid])) @ post\<rparr>)"
proof -
  define p where "p = triangle_rows c (\<lambda>_. None) ! length done"
  define st2 where
    "st2 = st1\<lparr>trianglePositions := pre @ triangle_rows c (seated (done @ [uid])) @ post\<rparr>"
  have op: "find_open_position st1 c = Some p"
    by (simp add: open_rows [OF pos pre post] seated_open [OF len] p_def)
  have id: "pos_id p = Suc c + length done"
    unfolding p_def using len by (rule triangle_rows_nth_id)
  then have rng: "c < pos_id p" "pos_id p \<le> c + 15" using len by simp_all
  have "map (\<lambda>q. if pos_id q = pos_id p then q\<lparr>userId := Some uid\<rparr> else q) (trianglePositions st1)
      = pre @ triangle_rows c (seated (done @ [uid])) @ post"
    unfolding pos map_append
    using foreign_map_id [OF pre rng] foreign_map_id [OF post rng] seated_place [OF len, of c uid]
    by (simp add: id)
  then have upd: "st1\<lparr>trianglePositions :=
        map (\<lambda>q. if pos_id q = pos_id p then q\<lparr>userId := Some uid\<rparr> else q) (trianglePositions st1)\<rparr>
      = st2" by (simp add: st2_def)
  have cnt: "count_filled st2 c = Suc (length done)"
  proof -
    have "trianglePositions st2 = pre @ triangle_rows c (seated (done @ [uid])) @ post"
      by (simp add: st2_def)
    from count_rows [OF this pre post] len seated_count [of "done @ [uid]" c]
    show ?thesis by simp
  qed
  from place_user_ok [OF user sel] op tid upd cnt show ?thesis
    by (simp add: p_def st2_def)
qed

lemma newcomer_user:
  assumes "newcomer st pl uid"
  obtains u where "find_user st uid = Some u" "plan u = pl" "\<not> truthy (uplineId u)"
  using assms by (auto simp: newcomer_def split: option.splits)

lemma newcomer_no_referrer:
  "\<not> truthy (uplineId u) \<Longrightarrow> referrer_triangle st u None = None"
  by (simp add: referrer_triangle_def candidate_referrer_def truthy_def)

lemma select_first:
  assumes none: "no_open_triangle st0 pl"
    and pl: "plan u = pl" and up: "\<not> truthy (uplineId u)"
  shows "\<exists>st1. select_target st0 u None = (new_triangle (clock st0) pl, st1)
           \<and> filling st0 pl [] st1"
proof -
  from none pl have "\<forall>t'\<in>set (triangles st0). \<not> accepts st0 u t'"
    by (auto simp: no_open_triangle_def accepts_def list_all_iff)
  then have "find_oldest_open_triangle st0 (plan u) = None"
    by (simp add: find_oldest_open_triangle_None_iff)
  with newcomer_no_referrer [OF up] pl
  have "select_target st0 u None = createTriangle st0 pl"
    by (simp add: select_target_def)
  then show ?thesis
    by (simp add: createTriangle_rows filling_def seated_Nil)
qed

lemma select_filling:
  assumes fresh: "fresh st0"
    and none: "no_open_triangle st0 pl"
    and fill: "filling st0 pl done st"
    and len: "length done < 15"
    and pl: "plan u = pl" and up: "\<not> truthy (uplineId u)"
  shows "select_target st u None = (new_triangle (clock st0) pl, st)"
proof -
  define c where "c = clock st0"
  define Q where "Q = (\<lambda>t::triangle. planType t = pl \<and> \<not> isComplete t \<and>
      list_ex (\<lambda>p. triangleId p = tri_id t \<and> userId p = None) (trianglePositions st))"
  from fill have ts: "triangles st = triangles st0 @ [new_triangle c pl]"
    and ps: "trianglePositions st = trianglePositions st0 @ triangle_rows c (seated done)"
    by (simp_all add: filling_def c_def)
  have old: "\<not> Q t'" if "t' \<in> set (triangles st0)" for t'
  proof
    assume q: "Q t'"
    from that fresh have "tri_id t' \<noteq> c" by (auto simp: fresh_def list_all_iff c_def)
    then have "\<not> list_ex (\<lambda>p. triangleId p = tri_id t' \<and> userId p = None)
        (triangle_rows c (seated done))"
      by (auto simp: list_ex_iff dest: triangle_rows_member)
    with q ps have "list_ex (\<lambda>p. triangleId p = tri_id t' \<and> userId p = None) (trianglePositions st0)"
      by (simp add: Q_def)
    with q that none show False
      by (auto simp: no_open_triangle_def list_all_iff Q_def)
  qed
  have new: "Q (new_triangle c pl)"
  proof -
    from seated_open [OF len, of c]
    have "triangle_rows c (\<lambda>_. None) ! length done
        \<in> set (filter (\<lambda>p. userId p = None) (triangle_rows c (seated done)))" by simp
    then have "list_ex (\<lambda>p. triangleId p = c \<and> userId p = None) (triangle_rows c (seated done))"
      by (auto simp: list_ex_iff dest: triangle_rows_member)
    with ps show ?thesis by (simp add: Q_def new_triangle_def)
  qed
  from old have "filter Q (triangles st0) = []" by (simp add: filter_empty_conv)
  with new ts have "filter Q (triangles st) = [new_triangle c pl]" by simp
  then have "find_oldest_open_triangle st pl = Some (new_triangle c pl)"
    by (simp add: find_oldest_open_triangle_def Q_def)
  with newcomer_no_referrer [OF up] pl show ?thesis
    by (simp add: select_target_def c_def)
qed

lemma filling_find_user: "filling st0 pl done st \<Longrightarrow> find_user st i = find_user st0 i"
  by (simp add: filling_def find_user_def)

lemma assign_filling:
  assumes fresh: "fresh st0"
    and user: "find_user st uid = Some u"
    and sel: "select_target st u r = (new_triangle (clock st0) pl, st1)"
    and fill: "filling st0 pl done st1"
    and len: "length done < 15"
  shows "\<exists>st2 st'. place_user st uid r =
             Inr (triangle_rows (clock st0) (\<lambda>_. None) ! length done,
                  new_triangle (clock st0) pl, Suc (length done), st2)
           \<and> assignUserToTriangle st uid r =
               Inr (triangle_rows (clock st0) (\<lambda>_. None) ! length done, st')
           \<and> filling st0 pl (done @ [uid]) st2
           \<and> (Suc (length done) \<noteq> 15 \<longrightarrow> st' = st2)
           \<and> (Suc (length done) = 15 \<longrightarrow> handleTriangleCompletion st2 (clock st0) = Inr st')"
proof -
  define c where "c = clock st0"
  define st2 where "st2 = st1\<lparr>trianglePositions :=
      trianglePositions st0 @ triangle_rows c (seated (done @ [uid])) @ []\<rparr>"
  from fill have ps: "trianglePositions st1 = trianglePositions st0 @ triangle_rows c (seated done) @ []"
    by (simp add: filling_def c_def)
  have tid: "tri_id (new_triangle c pl) = c" by (simp add: new_triangle_def)
  have pl: "place_user st uid r =
      Inr (triangle_rows c (\<lambda>_. None) ! length done, new_triangle c pl, Suc (length done), st2)"
    unfolding st2_def
    by (rule place_step [OF user sel [folded c_def] tid ps _ _ len])
       (simp_all add: foreign_fresh [OF fresh] c_def)
  from fill have f2: "filling st0 pl (done @ [uid]) st2"
    by (simp add: filling_def st2_def c_def)
  then have "new_triangle c pl \<in> set (triangles st2)"
    by (simp add: filling_def c_def)
  then have "find_triangle st2 c \<noteq> None"
    by (auto simp: find_triangle_def find_None_iff new_triangle_def)
  from handleTriangleCompletion_total [OF this] obtain st3 where
    h: "handleTriangleCompletion st2 c = Inr st3" by blast
  define st' where "st' = (if Suc (length done) = 15 then st3 else st2)"
  from pl h tid have "assignUserToTriangle st uid r =
      Inr (triangle_rows c (\<lambda>_. None) ! length done, st')"
    by (simp add: assignUserToTriangle_def st'_def)
  with pl f2 h show ?thesis unfolding c_def [symmetric] by (auto simp: st'_def)
qed

lemma assign_each_filling:
  assumes fresh: "fresh st0"
    and none: "no_open_triangle st0 pl"
  shows "filling st0 pl done st \<Longrightarrow> length done + length uids \<le> 15 \<Longrightarrow>
     list_all (newcomer st0 pl) uids \<Longrightarrow>
     \<exists>log st'. assign_each st uids = Inr (log, st')
       \<and> map fst log = take (length uids) (drop (length done) (triangle_rows (clock st0) (\<lambda>_. None)))
       \<and> map snd log = [Suc (length done) ..< Suc (length done + length uids)]
       \<and> (length done + length uids < 15 \<longrightarrow> filling st0 pl (done @ uids) st')"
proof (induction uids arbitrary: st "done")
  case Nil
  then show ?case by simp
next
  case (Cons uid uids)
  define rows where "rows = triangle_rows (clock st0) (\<lambda>_. None)"
  from Cons.prems have len: "length done < 15" by simp
  from Cons.prems obtain u where u: "find_user st0 uid = Some u" "plan u = pl"
      "\<not> truthy (uplineId u)"
    by (auto elim: newcomer_user)
  from u(1) have user: "find_user st uid = Some u"
    by (simp add: filling_find_user [OF Cons.prems(1)])
  note sel = select_filling [OF fresh none Cons.prems(1) len u(2,3)]
  from assign_filling [OF fresh user sel Cons.prems(1) len] obtain st2 st' where
    pl: "place_user st uid None =
             Inr (rows ! length done, new_triangle (clock st0) pl, Suc (length done), st2)"
    and a: "assignUserToTriangle st uid None = Inr (rows ! length done, st')"
    and f2: "filling st0 pl (done @ [uid]) st2"
    and same: "Suc (length done) \<noteq> 15 \<longrightarrow> st' = st2"
    unfolding rows_def by blast
  have hd: "take (Suc (length uids)) (drop (length done) rows)
      = rows ! length done # take (length uids) (drop (Suc (length done)) rows)"
    using len by (simp add: rows_def triangle_rows_def structure_length Cons_nth_drop_Suc [symmetric])
  show ?case
  proof (cases "uids = []")
    case True
    with pl a f2 same hd show ?thesis
      unfolding rows_def [symmetric] by (auto simp: upt_rec)
  next
    case False
    with Cons.prems have "Suc (length done) \<noteq> 15" by (cases uids) auto
    with same f2 have f': "filling st0 pl (done @ [uid]) st'" by simp
    from Cons.prems have "length (done @ [uid]) + length uids \<le> 15"
      "list_all (newcomer st0 pl) uids" by simp_all
    from Cons.IH [OF f' this] obtain log st'' where
      r: "assign_each st' uids = Inr (log, st'')"
        "map fst log = take (length uids) (drop (Suc (length done)) rows)"
        "map snd log = [Suc (Suc (length done)) ..< Suc (Suc (length done) + length uids)]"
        "length done + Suc (length uids) < 15 \<longrightarrow> filling st0 pl (done @ uid # uids) st''"
      unfolding rows_def by auto
    have "[Suc (length done) ..< Suc (length done + length (uid # uids))]
        = Suc (length done) # [Suc (Suc (length done)) ..< Suc (Suc (length done) + length uids)]"
      by (simp add: upt_rec)
    with pl a r hd show ?thesis
      unfolding rows_def [symmetric] by simp
  qed
qed

text \<open>The completion of a triangle that fifteen placements have filled.\<close>

lemma filling_fresh:
  assumes "fresh st0" and "filling st0 pl done st"
  shows "fresh st"
  using assms
  by (auto simp: fresh_def filling_def list_all_iff new_triangle_def dest!: triangle_rows_member)

lemma filled_positions_structure:
  "map (\<lambda>p. (level p, position p, positionKey p)) (filled_positions t ts i occ S) = S"
  by (induction S arbitrary: i) auto

lemma rows_well_formed:
  assumes pos: "trianglePositions st = pre @ triangle_rows c occ"
    and pre: "foreign c pre"
  shows "well_formed st c"
proof -
  have "filter (\<lambda>p. triangleId p = c \<and> True) (trianglePositions st)
      = filter (\<lambda>p. True) (triangle_rows c occ)"
    unfolding pos filter_append
    by (simp only: foreign_filter [OF pre] triangle_rows_filter append_Nil)
  then have f: "filter (\<lambda>p. triangleId p = c) (trianglePositions st) = triangle_rows c occ"
    by simp
  have "sorted (map (\<lambda>p. (level p, position p)) (filter (\<lambda>p. True) (triangle_rows c occ)))"
    by (rule triangle_rows_sorted)
  then have "by_level_position (triangle_rows c occ) = triangle_rows c occ"
    unfolding by_level_position_def by (simp add: sort_key_id_if_sorted)
  with f show ?thesis
    by (simp add: well_formed_def triangle_rows_def filled_positions_structure)
qed

lemma occupant_user_occupant:
  "occupant_user st t k = (case occupant st t k of None \<Rightarrow> None | Some i \<Rightarrow> find_user st i)"
  by (simp add: occupant_user_def occupant_def position_user_def split: option.splits)

lemma find_user_id: "find_user st i = Some x \<Longrightarrow> user_id x = i"
  by (auto simp: find_user_def find_Some_iff)

lemma find_map_same:
  assumes "\<And>x. P (f x) = P x"
  shows "find P (map f xs) = map_option f (find P xs)"
  by (induction xs) (auto simp: assms)

lemma seated_member: "seated done k = Some i \<Longrightarrow> i \<in> set done"
  by (auto simp: seated_def dest!: map_of_SomeD set_zip_rightD)

lemma length_fifteen:
  "length (xs :: 'a list) = 15 \<Longrightarrow>
     \<exists>x1 x2 x3 x4 x5 x6 x7 x8 x9 x10 x11 x12 x13 x14 x15.
        xs = [x1, x2, x3, x4, x5, x6, x7, x8, x9, x10, x11, x12, x13, x14, x15]"
  by (auto simp: numeral_eq_Suc length_Suc_conv)

lemma triangle_rows_cong:
  "map occ structure_keys = map occ' structure_keys \<Longrightarrow> triangle_rows c occ = triangle_rows c occ'"
  unfolding triangle_rows_def
  by (rule filled_positions_cong) (auto simp: structure_keys_def)

lemma cycle_of_full:
  assumes fresh: "fresh st0"
    and rows: "trianglePositions st = trianglePositions st0 @ triangle_rows (clock st0) (seated uids)"
    and tris: "triangles st = triangles st0 @ [tri]" and tid: "tri_id tri = clock st0"
    and clk: "clock st = clock st0 + 16"
    and len: "length uids = 15"
    and users: "\<forall>i\<in>set uids. \<exists>x. find_user st i = Some x"
  shows "cycleTriangle st (clock st0) =
     Inr (st\<lparr>triangles := triangles st0 @
                 [new_triangle (clock st0 + 16) (planType tri),
                  new_triangle (clock st0 + 32) (planType tri)],
             trianglePositions := trianglePositions st0
                 @ triangle_rows (clock st0 + 16) (seated (map ((!) uids) [1, 3, 4, 7, 8, 9, 10]))
                 @ triangle_rows (clock st0 + 32) (seated (map ((!) uids) [2, 5, 6, 11, 12, 13, 14])),
             clock := clock st0 + 48\<rparr>)"
proof -
  define c where "c = clock st0"
  define snap where "snap = load_positions st c"
  note pre = foreign_fresh [OF fresh order_refl, folded c_def]
  have fr: "fresh st"
    using fresh rows tris tid clk
    by (auto simp: fresh_def list_all_iff dest!: triangle_rows_member)
  have wf: "well_formed st c"
    using rows_well_formed [OF rows [folded c_def] pre] .
  have old: "find (\<lambda>t. tri_id t = c) (triangles st0) = None"
    using fresh by (auto simp: fresh_def list_all_iff find_None_iff c_def)
  have tri: "find_triangle st c = Some tri"
    using old tid by (simp add: find_triangle_def tris find_append c_def)
  have occ: "occupant st c k = seated uids k" if "k \<in> set structure_keys" for k
  proof -
    from rows have "trianglePositions st = trianglePositions st0 @ triangle_rows c (seated uids) @ []"
      by (simp add: c_def)
    from occupant_rows [OF this pre that] show ?thesis .
  qed
  have key: "map_option user_id (occupant_user st c k) = seated uids k"
    if "k \<in> set structure_keys" for k
  proof (cases "seated uids k")
    case None
    with occ [OF that] show ?thesis by (simp add: occupant_user_occupant)
  next
    case (Some i)
    from seated_member [OF Some] users obtain x where x: "find_user st i = Some x" by blast
    with find_user_id [OF x] Some occ [OF that] show ?thesis
      by (simp add: occupant_user_occupant)
  qed
  from length_fifteen [OF len] obtain x1 x2 x3 x4 x5 x6 x7 x8 x9 x10 x11 x12 x13 x14 x15 where
    uids: "uids = [x1, x2, x3, x4, x5, x6, x7, x8, x9, x10, x11, x12, x13, x14, x15]" by blast
  have seat: "map (seated uids) structure_keys = map Some uids"
    using seated_occupants [of uids] len by simp
  have ab1: "map_option user_id (occupant_user st c ''AB1'') = Some x2"
    and ab2: "map_option user_id (occupant_user st c ''AB2'') = Some x3"
    using seat by (simp_all add: key structure_keys_def TRIANGLE_STRUCTURE_def uids)
  then obtain a b where a: "occupant_user st c ''AB1'' = Some a" "user_id a = x2"
    and b: "occupant_user st c ''AB2'' = Some b" "user_id b = x3" by auto
  have s1: "slot_user (load_positions st c) 2 0 = Some a"
    and s2: "slot_user (load_positions st c) 2 1 = Some b"
    using well_formed_AB [OF wf] a(1) b(1) by simp_all
  have su: "map_option user_id (snap_user snap k) = seated uids k"
    if "k \<in> set structure_keys" for k
    unfolding snap_def snap_user_occupant [OF wf] by (rule key [OF that])
  have left: "triangle_rows (c + 16) (successor_rows snap ab1SubtreeMap a)
      = triangle_rows (c + 16) (seated (map ((!) uids) [1, 3, 4, 7, 8, 9, 10]))"
  proof (rule triangle_rows_cong)
    have "map (seated (map ((!) uids) [1, 3, 4, 7, 8, 9, 10])) structure_keys
        = map Some [x2, x4, x5, x8, x9, x10, x11] @ replicate 8 None"
      using seated_occupants [of "map ((!) uids) [1, 3, 4, 7, 8, 9, 10]"] by (simp add: uids)
    moreover have "map (successor_rows snap ab1SubtreeMap a) structure_keys
        = map Some [x2, x4, x5, x8, x9, x10, x11] @ replicate 8 None"
      unfolding successor_rows_left using seat a(2)
      by (simp add: su structure_keys_def TRIANGLE_STRUCTURE_def uids)
    ultimately show "map (successor_rows snap ab1SubtreeMap a) structure_keys
        = map (seated (map ((!) uids) [1, 3, 4, 7, 8, 9, 10])) structure_keys" by simp
  qed
  have right: "triangle_rows (c + 32) (successor_rows snap ab2SubtreeMap b)
      = triangle_rows (c + 32) (seated (map ((!) uids) [2, 5, 6, 11, 12, 13, 14]))"
  proof (rule triangle_rows_cong)
    have "map (seated (map ((!) uids) [2, 5, 6, 11, 12, 13, 14])) structure_keys
        = map Some [x3, x6, x7, x12, x13, x14, x15] @ replicate 8 None"
      using seated_occupants [of "map ((!) uids) [2, 5, 6, 11, 12, 13, 14]"] by (simp add: uids)
    moreover have "map (successor_rows snap ab2SubtreeMap b) structure_keys
        = map Some [x3, x6, x7, x12, x13, x14, x15] @ replicate 8 None"
      unfolding successor_rows_right using seat b(2)
      by (simp add: su structure_keys_def TRIANGLE_STRUCTURE_def uids)
    ultimately show "map (successor_rows snap ab2SubtreeMap b) structure_keys
        = map (seated (map ((!) uids) [2, 5, 6, 11, 12, 13, 14])) structure_keys" by simp
  qed
  have ft: "filter (\<lambda>x. tri_id x \<noteq> c) (triangles st) = triangles st0"
    using fresh tid by (auto simp: tris filter_id_conv fresh_def list_all_iff c_def)
  have fp: "filter (\<lambda>p. triangleId p \<noteq> c) (trianglePositions st) = trianglePositions st0"
  proof -
    have "filter (\<lambda>p. triangleId p \<noteq> c) (trianglePositions st0) = trianglePositions st0"
      using pre by (auto simp: filter_id_conv foreign_def list_all_iff)
    moreover have "filter (\<lambda>p. triangleId p \<noteq> c) (triangle_rows c (seated uids)) = []"
      by (auto simp: filter_empty_conv dest!: triangle_rows_member)
    ultimately show ?thesis by (simp add: rows c_def)
  qed
  from cycle_split_rows [OF fr tri s1 s2]
  show ?thesis
    unfolding c_def [symmetric] snap_def [symmetric] ft fp clk [folded c_def]
    by (simp add: left right add.assoc)
qed

lemma completion_of_full:
  fixes st0 :: "'m::plus store"
  assumes fresh: "fresh st0"
    and fill: "filling st0 pl uids st"
    and len: "length uids = 15"
    and new: "list_all (newcomer st0 pl) uids"
  shows "\<exists>st'. handleTriangleCompletion st (clock st0) = Inr st'
     \<and> triangles st' = triangles st0 @
          [new_triangle (clock st0 + 16) pl, new_triangle (clock st0 + 32) pl]
     \<and> trianglePositions st' = trianglePositions st0
          @ triangle_rows (clock st0 + 16) (seated (map ((!) uids) [1, 3, 4, 7, 8, 9, 10]))
          @ triangle_rows (clock st0 + 32) (seated (map ((!) uids) [2, 5, 6, 11, 12, 13, 14]))
     \<and> (case find_plan st0 pl of
          None \<Rightarrow> transactions st' = transactions st0 \<and> users st' = users st0
        | Some row \<Rightarrow>
            (\<exists>x. find_user st0 (hd uids) = Some x
               \<and> transactions st' = transactions st0 @ [withdrawal x (payout row) (clock st0 + 16)])
            \<and> users st' = map (\<lambda>x. if user_id x = hd uids then credit (payout row) x else x)
                            (users st0))
     \<and> plans st' = plans st0 \<and> clock st' = clock st0 + 48"
proof -
  define c where "c = clock st0"
  define done_tri where
    "done_tri = (new_triangle c pl)\<lparr>isComplete := True, completedAt := Some (c + 16)\<rparr>"
  define st1 where "st1 = st\<lparr>triangles := triangles st0 @ [done_tri]\<rparr>"
  from fill have f: "users st = users st0" "plans st = plans st0"
    "transactions st = transactions st0" "triangles st = triangles st0 @ [new_triangle c pl]"
    "trianglePositions st = trianglePositions st0 @ triangle_rows c (seated uids)"
    "clock st = c + 16"
    by (simp_all add: filling_def c_def)
  note pre = foreign_fresh [OF fresh order_refl, folded c_def]
  have old: "\<forall>t\<in>set (triangles st0). tri_id t \<noteq> c"
    using fresh by (auto simp: fresh_def list_all_iff c_def)
  then have same: "map (\<lambda>x. if tri_id x = c then g x else x) (triangles st0) = triangles st0" for g
    by (induction "triangles st0") (auto simp: map_idI)
  have m: "mark_complete st c = Inr st1"
    by (simp add: mark_complete_def update_rows_def f same st1_def done_tri_def new_triangle_def)
  from old have "find (\<lambda>t. tri_id t = c) (triangles st0) = None"
    by (simp add: find_None_iff)
  then have tri1: "find_triangle st1 c = Some done_tri"
    by (simp add: find_triangle_def st1_def find_append done_tri_def new_triangle_def)
  from new have found: "\<forall>i\<in>set uids. \<exists>x. find_user st0 i = Some x"
    by (auto simp: list_all_iff newcomer_def split: option.splits)
  from len have "uids \<noteq> []" by auto
  then have hd: "hd uids \<in> set uids" by simp
  with found obtain x where x: "find_user st0 (hd uids) = Some x" by blast
  have seatA: "seated uids ''A'' = Some (hd uids)"
    using seated_occupants [of uids] len \<open>uids \<noteq> []\<close>
    by (cases uids) (simp_all add: structure_keys_def TRIANGLE_STRUCTURE_def)
  define pa where "pa = \<lparr>pos_id = Suc c, triangleId = c, level = 1, position = 0,
      positionKey = ''A'', userId = Some (hd uids), pos_createdAt = Suc c\<rparr>"
  have posA: "find (\<lambda>p. triangleId p = c \<and> level p = 1 \<and> position p = 0) (trianglePositions st1)
      = Some pa"
    by (simp add: st1_def f find_append foreign_find [OF pre] triangle_rows_def
        TRIANGLE_STRUCTURE_def seatA pa_def)
  have occ: "position_user st1 pa = Some x"
    using x by (simp add: position_user_def pa_def find_user_def st1_def f)
  have plan1: "find_plan st1 (planType done_tri) = find_plan st0 pl"
    by (simp add: find_plan_def st1_def f done_tri_def new_triangle_def)
  have cyc: "cycleTriangle st2 c =
     Inr (st2\<lparr>triangles := triangles st0 @ [new_triangle (c + 16) pl, new_triangle (c + 32) pl],
              trianglePositions := trianglePositions st0
                 @ triangle_rows (c + 16) (seated (map ((!) uids) [1, 3, 4, 7, 8, 9, 10]))
                 @ triangle_rows (c + 32) (seated (map ((!) uids) [2, 5, 6, 11, 12, 13, 14])),
              clock := c + 48\<rparr>)"
    if "trianglePositions st2 = trianglePositions st1" "triangles st2 = triangles st1"
      "clock st2 = clock st1" "users st2 = map g (users st0)" "\<And>u. user_id (g u) = user_id u"
    for st2 :: "'m store" and g
  proof -
    have "find_user st2 i = map_option g (find_user st0 i)" for i
      unfolding find_user_def that(4) by (rule find_map_same) (simp add: that(5))
    with found have us: "\<forall>i\<in>set uids. \<exists>x. find_user st2 i = Some x" by auto
    from cycle_of_full [OF fresh, of st2 uids done_tri, folded c_def] that(1-3) len us
    show ?thesis
      by (simp add: st1_def f done_tri_def new_triangle_def)
  qed
  show ?thesis
  proof (cases "find_plan st0 pl")
    case None
    from completion_payout_skipped [OF tri1 posA occ] None plan1
    have p: "completion_payout st1 c = Inr st1" by simp
    have "users st1 = map id (users st0)" by (simp add: st1_def f)
    from cyc [OF refl refl refl this] have "cycleTriangle st1 c = Inr (st1\<lparr>triangles := triangles st0 @ [new_triangle (c + 16) pl, new_triangle (c + 32) pl],
              trianglePositions := trianglePositions st0
                 @ triangle_rows (c + 16) (seated (map ((!) uids) [1, 3, 4, 7, 8, 9, 10]))
                 @ triangle_rows (c + 32) (seated (map ((!) uids) [2, 5, 6, 11, 12, 13, 14])),
              clock := c + 48\<rparr>)" by simp
    with m p None show ?thesis
      unfolding c_def [symmetric]
      by (simp add: handleTriangleCompletion_def st1_def f)
  next
    case (Some row)
    define st2 where "st2 = st1\<lparr>transactions := transactions st1 @ [withdrawal x (payout row) (clock st1)],
                   users := map (\<lambda>u. if user_id u = user_id x then credit (payout row) u else u)
                              (users st1)\<rparr>"
    from completion_payout_paid [OF tri1 posA occ] Some plan1
    have p: "completion_payout st1 c = Inr st2" by (simp add: st2_def)
    have "users st2 = map (\<lambda>u. if user_id u = user_id x then credit (payout row) u else u) (users st0)"
      by (simp add: st2_def st1_def f)
    from cyc [OF _ _ _ this] have "cycleTriangle st2 c = Inr (st2\<lparr>triangles := triangles st0 @ [new_triangle (c + 16) pl, new_triangle (c + 32) pl],
              trianglePositions := trianglePositions st0
                 @ triangle_rows (c + 16) (seated (map ((!) uids) [1, 3, 4, 7, 8, 9, 10]))
                 @ triangle_rows (c + 32) (seated (map ((!) uids) [2, 5, 6, 11, 12, 13, 14])),
              clock := c + 48\<rparr>)"
      by (simp add: st2_def credit_def)
    with m p Some x find_user_id [OF x] show ?thesis
      unfolding c_def [symmetric]
      by (simp add: handleTriangleCompletion_def st2_def st1_def f)
  qed
qed

lemma occupant_fresh:
  "fresh st \<Longrightarrow> occupant st (clock st) k = None"
proof -
  assume "fresh st"
  then have "find (\<lambda>p. triangleId p = clock st \<and> positionKey p = k) (trianglePositions st) = None"
    by (auto simp: fresh_def list_all_iff find_None_iff)
  then show ?thesis by (simp add: occupant_def)
qed

lemma filling_occupants:
  assumes fresh: "fresh st0" and fill: "filling st0 pl done st" and len: "length done \<le> 15"
  shows "map (occupant st (clock st0)) structure_keys
           = map Some done @ replicate (15 - length done) None"
proof -
  from fill have "trianglePositions st
      = trianglePositions st0 @ triangle_rows (clock st0) (seated done) @ []"
    by (simp add: filling_def)
  from occupant_rows [OF this foreign_fresh [OF fresh order_refl]]
  have "map (occupant st (clock st0)) structure_keys = map (seated done) structure_keys"
    by simp
  with seated_occupants [OF len] show ?thesis by simp
qed

lemma fill_from_start:
  assumes fresh: "fresh st"
    and none: "no_open_triangle st pl"
    and new: "list_all (newcomer st pl) uids"
    and len: "length uids \<le> 15"
  shows "\<exists>log st'. assign_each st uids = Inr (log, st')
      \<and> map fst log = take (length uids) (triangle_rows (clock st) (\<lambda>_. None))
      \<and> map snd log = [1 ..< Suc (length uids)]
      \<and> (length uids < 15 \<longrightarrow>
           map (occupant st' (clock st)) structure_keys
             = map Some uids @ replicate (15 - length uids) None)
      \<and> (length uids = 0 \<longrightarrow> st' = st)
      \<and> (0 < length uids \<and> length uids < 15 \<longrightarrow> filling st pl uids st')"
proof (cases uids)
  case Nil
  have "map (occupant st (clock st)) structure_keys = map (\<lambda>_. None) structure_keys"
    by (rule map_cong) (simp_all add: occupant_fresh [OF fresh])
  then have "map (occupant st (clock st)) structure_keys = replicate (length structure_keys) None"
    by (simp add: map_replicate_const)
  with Nil show ?thesis by (simp add: structure_keys_def structure_length)
next
  case (Cons uid rest)
  define rows where "rows = triangle_rows (clock st) (\<lambda>_. None)"
  from new Cons obtain u where u: "find_user st uid = Some u" "plan u = pl"
      "\<not> truthy (uplineId u)"
    by (auto elim: newcomer_user)
  from select_first [OF none u(2,3)] obtain st1 where
    sel: "select_target st u None = (new_triangle (clock st) pl, st1)"
    and f1: "filling st pl [] st1" by blast
  from assign_filling [OF fresh u(1) sel f1] obtain st2 st' where
    pl: "place_user st uid None = Inr (rows ! 0, new_triangle (clock st) pl, Suc 0, st2)"
    and a: "assignUserToTriangle st uid None = Inr (rows ! 0, st')"
    and f2: "filling st pl [uid] st2"
    and same: "st' = st2"
    unfolding rows_def by auto
  from new len Cons have "length [uid] + length rest \<le> 15" "list_all (newcomer st pl) rest"
    by simp_all
  from assign_each_filling [OF fresh none f2 [folded same] this] obtain log st'' where
    r: "assign_each st' rest = Inr (log, st'')"
      "map fst log = take (length rest) (drop (Suc 0) rows)"
      "map snd log = [Suc (Suc 0) ..< Suc (Suc 0 + length rest)]"
      "Suc (length rest) < 15 \<longrightarrow> filling st pl (uid # rest) st''"
    unfolding rows_def by auto
  have l: "length rows = 15" by (simp add: rows_def triangle_rows_def structure_length)
  then have hd: "take (Suc (length rest)) rows = rows ! 0 # take (length rest) (drop (Suc 0) rows)"
    by (cases rows) simp_all
  have cnt: "[1 ..< Suc (length uids)] = Suc 0 # [Suc (Suc 0) ..< Suc (Suc 0 + length rest)]"
    using Cons by (simp add: upt_rec)
  have occ: "map (occupant st'' (clock st)) structure_keys
             = map Some uids @ replicate (15 - length uids) None" if "length uids < 15"
  proof -
    from that Cons r(4) have "filling st pl uids st''" by simp
    from filling_occupants [OF fresh this len] show ?thesis .
  qed
  have fil: "filling st pl uids st''" if "length uids < 15"
    using that Cons r(4) by simp
  have "assign_each st uids = Inr ((rows ! 0, Suc 0) # log, st'')"
    using Cons pl a r(1) by simp
  with r(2,3) hd cnt occ fil Cons show ?thesis
    unfolding rows_def [symmetric] by auto
qed

lemma assign_each_snoc:
  "assign_each st (xs @ [x]) =
     (case assign_each st xs of
        Inl err \<Rightarrow> Inl err
      | Inr (log, st1) \<Rightarrow>
         (case assign_each st1 [x] of
            Inl err \<Rightarrow> Inl err
          | Inr (log', st2) \<Rightarrow> Inr (log @ log', st2)))"
  by (induction xs arbitrary: st) (auto split: sum.splits prod.splits)

lemma fill_complete:
  assumes fresh: "fresh st"
    and none: "no_open_triangle st pl"
    and new: "list_all (newcomer st pl) uids"
    and len: "length uids = 15"
  shows "\<exists>log14 st14 st15 p st'. assign_each st (butlast uids) = Inr (log14, st14)
     \<and> filling st pl (butlast uids) st14
     \<and> assignUserToTriangle st14 (last uids) None = Inr (p, st')
     \<and> filling st pl uids st15
     \<and> handleTriangleCompletion st15 (clock st) = Inr st'
     \<and> assign_each st uids = Inr (log14 @ [(p, 15)], st')"
proof -
  from len have ne: "uids \<noteq> []" by auto
  then have split: "butlast uids @ [last uids] = uids" by simp
  from len have l14: "length (butlast uids) = 14" by simp
  from new have n14: "list_all (newcomer st pl) (butlast uids)"
    by (auto simp: list_all_iff dest: in_set_butlastD)
  from fill_from_start [OF fresh none n14] l14 obtain log14 st14 where
    a14: "assign_each st (butlast uids) = Inr (log14, st14)"
    and f14: "filling st pl (butlast uids) st14" by auto
  from new ne have "newcomer st pl (last uids)" by (simp add: list_all_iff)
  then obtain u where u: "find_user st (last uids) = Some u" "plan u = pl"
      "\<not> truthy (uplineId u)"
    by (auto elim: newcomer_user)
  from u(1) have user: "find_user st14 (last uids) = Some u"
    by (simp add: filling_find_user [OF f14])
  from l14 have lt: "length (butlast uids) < 15" by simp
  note sel = select_filling [OF fresh none f14 lt u(2,3)]
  from assign_filling [OF fresh user sel f14 lt] l14 split obtain st15 st' where
    pl: "place_user st14 (last uids) None =
           Inr (triangle_rows (clock st) (\<lambda>_. None) ! 14, new_triangle (clock st) pl, 15, st15)"
    and a: "assignUserToTriangle st14 (last uids) None =
           Inr (triangle_rows (clock st) (\<lambda>_. None) ! 14, st')"
    and f15: "filling st pl uids st15"
    and h: "handleTriangleCompletion st15 (clock st) = Inr st'"
    by auto
  from pl a have "assign_each st14 [last uids] =
      Inr ([(triangle_rows (clock st) (\<lambda>_. None) ! 14, 15)], st')" by simp
  with a14 have "assign_each st (butlast uids @ [last uids]) =
      Inr (log14 @ [(triangle_rows (clock st) (\<lambda>_. None) ! 14, 15)], st')"
    by (simp add: assign_each_snoc)
  with a14 f14 a f15 h split show ?thesis by auto
qed

text \<open>
  C5: a successful placement returns the open slot of the target triangle that comes first in
  the order of level and position. Consequently, in a store with fresh identifiers in which no
  triangle of the plan can take a user, placing up to fifteen users of that plan, none with an
  upline, one after another returns the rows of one new triangle in structure order, the calls
  reading the counts 1, 2, ... of filled positions. While fewer than fifteen users are placed,
  the store left is the initial one with the new, incomplete triangle added, whose slots hold
  these users in structure order, followed by empty slots: nothing \<open>handleTriangleCompletion\<close>
  writes is there. The fifteenth call, made in the store left by the first fourteen, leaves the
  store that \<open>handleTriangleCompletion\<close> returns for the full triangle: the triangle is gone,
  its two successors hold the users of the left and right halves, and, when a plan row exists,
  one withdrawal has been appended and the first user credited once.
\<close>

theorem placement_fills_in_order:
  "(find_user st uid = Some u \<longrightarrow>
      (\<exists>p st' t st1. assignUserToTriangle st uid r = Inr (p, st')
         \<and> select_target st u r = (t, st1)
         \<and> p \<in> set (trianglePositions st1) \<and> triangleId p = tri_id t \<and> userId p = None
         \<and> (\<forall>q\<in>set (trianglePositions st1). triangleId q = tri_id t \<and> userId q = None \<longrightarrow>
               level p < level q \<or> (level p = level q \<and> position p \<le> position q))))
   \<and> (fresh st \<and> no_open_triangle st pl \<and> list_all (newcomer st pl) uids \<and> length uids \<le> 15 \<longrightarrow>
      (\<exists>log st'. assign_each st uids = Inr (log, st')
         \<and> map fst log = take (length uids) (triangle_rows (clock st) (\<lambda>_. None))
         \<and> map snd log = [1 ..< Suc (length uids)]
         \<and> (length uids < 15 \<longrightarrow>
              map (occupant st' (clock st)) structure_keys
                = map Some uids @ replicate (15 - length uids) None)
         \<and> (length uids = 0 \<longrightarrow> st' = st)
         \<and> (0 < length uids \<and> length uids < 15 \<longrightarrow> filling st pl uids st')
         \<and> (length uids = 15 \<longrightarrow>
              (\<exists>log14 st14 st15 p.
                  assign_each st (butlast uids) = Inr (log14, st14)
                  \<and> filling st pl (butlast uids) st14
                  \<and> assignUserToTriangle st14 (last uids) None = Inr (p, st')
                  \<and> filling st pl uids st15
                  \<and> handleTriangleCompletion st15 (clock st) = Inr st')
              \<and> triangles st' = triangles st @
                   [new_triangle (clock st + 16) pl, new_triangle (clock st + 32) pl]
              \<and> trianglePositions st' = trianglePositions st
                   @ triangle_rows (clock st + 16) (seated (map ((!) uids) [1, 3, 4, 7, 8, 9, 10]))
                   @ triangle_rows (clock st + 32) (seated (map ((!) uids) [2, 5, 6, 11, 12, 13, 14]))
              \<and> (case find_plan st pl of
                   None \<Rightarrow> transactions st' = transactions st \<and> users st' = users st
                 | Some row \<Rightarrow>
                     (\<exists>x. find_user st (hd uids) = Some x
                        \<and> transactions st' =
                            transactions st @ [withdrawal x (payout row) (clock st + 16)])
                     \<and> users st' =
                         map (\<lambda>x. if user_id x = hd uids then credit (payout row) x else x)
                           (users st))
              \<and> plans st' = plans st \<and> clock st' = clock st + 48)))"
proof (intro conjI impI)
  assume user: "find_user st uid = Some u"
  obtain t st1 where sel: "select_target st u r = (t, st1)" by force
  from assign_ok [OF user sel] obtain p st' where
    p: "find_open_position st1 (tri_id t) = Some p"
    and a: "assignUserToTriangle st uid r = Inr (p, st')" by blast
  from find_open_position_Some [OF p]
  have "p \<in> set (trianglePositions st1) \<and> triangleId p = tri_id t \<and> userId p = None
         \<and> (\<forall>q\<in>set (trianglePositions st1). triangleId q = tri_id t \<and> userId q = None \<longrightarrow>
               level p < level q \<or> (level p = level q \<and> position p \<le> position q))"
    by auto
  with a sel show "\<exists>p st' t st1. assignUserToTriangle st uid r = Inr (p, st')
         \<and> select_target st u r = (t, st1)
         \<and> p \<in> set (trianglePositions st1) \<and> triangleId p = tri_id t \<and> userId p = None
         \<and> (\<forall>q\<in>set (trianglePositions st1). triangleId q = tri_id t \<and> userId q = None \<longrightarrow>
               level p < level q \<or> (level p = level q \<and> position p \<le> position q))"
    by blast
next
  assume h: "fresh st \<and> no_open_triangle st pl \<and> list_all (newcomer st pl) uids
      \<and> length uids \<le> 15"
  then have fresh: "fresh st" and none: "no_open_triangle st pl"
    and new: "list_all (newcomer st pl) uids" and len: "length uids \<le> 15" by simp_all
  from fill_from_start [OF fresh none new len] obtain log st' where
    a: "assign_each st uids = Inr (log, st')"
    and l1: "map fst log = take (length uids) (triangle_rows (clock st) (\<lambda>_. None))"
    and l2: "map snd log = [1 ..< Suc (length uids)]"
    and o: "length uids < 15 \<longrightarrow>
              map (occupant st' (clock st)) structure_keys
                = map Some uids @ replicate (15 - length uids) None"
    and z: "length uids = 0 \<longrightarrow> st' = st"
    and f: "0 < length uids \<and> length uids < 15 \<longrightarrow> filling st pl uids st'"
    by (elim exE conjE)
  have full: "length uids = 15 \<longrightarrow> (\<exists>log14 st14 st15 p.
                  assign_each st (butlast uids) = Inr (log14, st14)
                  \<and> filling st pl (butlast uids) st14
                  \<and> assignUserToTriangle st14 (last uids) None = Inr (p, st')
                  \<and> filling st pl uids st15
                  \<and> handleTriangleCompletion st15 (clock st) = Inr st')
              \<and> triangles st' = triangles st @
                   [new_triangle (clock st + 16) pl, new_triangle (clock st + 32) pl]
              \<and> trianglePositions st' = trianglePositions st
                   @ triangle_rows (clock st + 16) (seated (map ((!) uids) [1, 3, 4, 7, 8, 9, 10]))
                   @ triangle_rows (clock st + 32) (seated (map ((!) uids) [2, 5, 6, 11, 12, 13, 14]))
              \<and> (case find_plan st pl of
                   None \<Rightarrow> transactions st' = transactions st \<and> users st' = users st
                 | Some row \<Rightarrow>
                     (\<exists>x. find_user st (hd uids) = Some x
                        \<and> transactions st' =
                            transactions st @ [withdrawal x (payout row) (clock st + 16)])
                     \<and> users st' =
                         map (\<lambda>x. if user_id x = hd uids then credit (payout row) x else x)
                           (users st))
              \<and> plans st' = plans st \<and> clock st' = clock st + 48"
  proof
    assume l15: "length uids = 15"
    from fill_complete [OF fresh none new l15] a obtain log14 st14 st15 p where
      c: "assign_each st (butlast uids) = Inr (log14, st14)"
         "filling st pl (butlast uids) st14"
         "assignUserToTriangle st14 (last uids) None = Inr (p, st')"
         "filling st pl uids st15"
         "handleTriangleCompletion st15 (clock st) = Inr st'"
      by auto
    from c have e: "\<exists>log14 st14 st15 p.
                  assign_each st (butlast uids) = Inr (log14, st14)
                  \<and> filling st pl (butlast uids) st14
                  \<and> assignUserToTriangle st14 (last uids) None = Inr (p, st')
                  \<and> filling st pl uids st15
                  \<and> handleTriangleCompletion st15 (clock st) = Inr st'"
      by blast
    from completion_of_full [OF fresh c(4) l15 new] c(5)
    have "triangles st' = triangles st @
                   [new_triangle (clock st + 16) pl, new_triangle (clock st + 32) pl]
              \<and> trianglePositions st' = trianglePositions st
                   @ triangle_rows (clock st + 16) (seated (map ((!) uids) [1, 3, 4, 7, 8, 9, 10]))
                   @ triangle_rows (clock st + 32) (seated (map ((!) uids) [2, 5, 6, 11, 12, 13, 14]))
              \<and> (case find_plan st pl of
                   None \<Rightarrow> transactions st' = transactions st \<and> users st' = users st
                 | Some row \<Rightarrow>
                     (\<exists>x. find_user st (hd uids) = Some x
                        \<and> transactions st' =
                            transactions st @ [withdrawal x (payout row) (clock st + 16)])
                     \<and> users st' =
                         map (\<lambda>x. if user_id x = hd uids then credit (payout row) x else x)
                           (users st))
              \<and> plans st' = plans st \<and> clock st' = clock st + 48"
      by auto
    with e show "(\<exists>log14 st14 st15 p.
                  assign_each st (butlast uids) = Inr (log14, st14)
                  \<and> filling st pl (butlast uids) st14
                  \<and> assignUserToTriangle st14 (last uids) None = Inr (p, st')
                  \<and> filling st pl uids st15
                  \<and> handleTriangleCompletion st15 (clock st) = Inr st')
              \<and> triangles st' = triangles st @
                   [new_triangle (clock st + 16) pl, new_triangle (clock st + 32) pl]
              \<and> trianglePositions st' = trianglePositions st
                   @ triangle_rows (clock st + 16) (seated (map ((!) uids) [1, 3, 4, 7, 8, 9, 10]))
                   @ triangle_rows (clock st + 32) (seated (map ((!) uids) [2, 5, 6, 11, 12, 13, 14]))
              \<and> (case find_plan st pl of
                   None \<Rightarrow> transactions st' = transactions st \<and> users st' = users st
                 | Some row \<Rightarrow>
                     (\<exists>x. find_user st (hd uids) = Some x
                        \<and> transactions st' =
                            transactions st @ [withdrawal x (payout row) (clock st + 16)])
                     \<and> users st' =
                         map (\<lambda>x. if user_id x = hd uids then credit (payout row) x else x)
                           (users st))
              \<and> plans st' = plans st \<and> clock st' = clock st + 48" by (rule conjI)
  qed
  from a l1 l2 o z f full
  show "\<exists>log st'. assign_each st uids = Inr (log, st')
         \<and> map fst log = take (length uids) (triangle_rows (clock st) (\<lambda>_. None))
         \<and> map snd log = [1 ..< Suc (length uids)]
         \<and> (length uids < 15 \<longrightarrow>
              map (occupant st' (clock st)) structure_keys
                = map Some uids @ replicate (15 - length uids) None)
         \<and> (length uids = 0 \<longrightarrow> st' = st)
         \<and> (0 < length uids \<and> length uids < 15 \<longrightarrow> filling st pl uids st')
         \<and> (length uids = 15 \<longrightarrow>
              (\<exists>log14 st14 st15 p.
                  assign_each st (butlast uids) = Inr (log14, st14)
                  \<and> filling st pl (butlast uids) st14
                  \<and> assignUserToTriangle st14 (last uids) None = Inr (p, st')
                  \<and> filling st pl uids st15
                  \<and> handleTriangleCompletion st15 (clock st) = Inr st')
              \<and> triangles st' = triangles st @
                   [new_triangle (clock st + 16) pl, new_triangle (clock st + 32) pl]
              \<and> trianglePositions st' = trianglePositions st
                   @ triangle_rows (clock st + 16) (seated (map ((!) uids) [1, 3, 4, 7, 8, 9, 10]))
                   @ triangle_rows (clock st + 32) (seated (map ((!) uids) [2, 5, 6, 11, 12, 13, 14]))
              \<and> (case find_plan st pl of
                   None \<Rightarrow> transactions st' = transactions st \<and> users st' = users st
                 | Some row \<Rightarrow>
                     (\<exists>x. find_user st (hd uids) = Some x
                        \<and> transactions st' =
                            transactions st @ [withdrawal x (payout row) (clock st + 16)])
                     \<and> users st' =
                         map (\<lambda>x. if user_id x = hd uids then credit (payout row) x else x)
                           (users st))
              \<and> plans st' = plans st \<and> clock st' = clock st + 48)"
    by (intro exI [of _ log] exI [of _ st'] conjI)
qed

theorem placement_fills_in_order_witness:
  "find_user ex_start ''u01'' = Some (ex_member ''u01'')
   \<and> fresh ex_start \<and> no_open_triangle ex_start ''BASIC''
   \<and> list_all (newcomer ex_start ''BASIC'') ex_ids \<and> length ex_ids \<le> 15
   \<and> (\<exists>p st' t st1. assignUserToTriangle ex_start ''u01'' None = Inr (p, st')
         \<and> select_target ex_start (ex_member ''u01'') None = (t, st1)
         \<and> p \<in> set (trianglePositions st1) \<and> triangleId p = tri_id t \<and> userId p = None
         \<and> (\<forall>q\<in>set (trianglePositions st1). triangleId q = tri_id t \<and> userId q = None \<longrightarrow>
               level p < level q \<or> (level p = level q \<and> position p \<le> position q)))
   \<and> (\<exists>log. assign_each ex_start ex_ids = Inr (log, ex_cycled)
         \<and> map (positionKey \<circ> fst) log = structure_keys
         \<and> map snd log = [1, 2, 3, 4, 5, 6, 7, 8, 9, 10, 11, 12, 13, 14, 15])
   \<and> (\<exists>log14 p. assign_each ex_start (butlast ex_ids) = Inr (log14, ex_fourteen)
         \<and> assignUserToTriangle ex_fourteen ''u15'' None = Inr (p, ex_cycled))
   \<and> handleTriangleCompletion ex_full 0 = Inr ex_cycled"
proof -
  have h1: "find_user ex_start ''u01'' = Some (ex_member ''u01'')"
    by (simp add: find_user_def ex_store_defs)
  have h2: "fresh ex_start \<and> no_open_triangle ex_start ''BASIC''
      \<and> list_all (newcomer ex_start ''BASIC'') ex_ids \<and> length ex_ids \<le> 15"
    by (simp add: fresh_def no_open_triangle_def newcomer_def find_user_def truthy_def
        ex_store_defs)
  note inst = placement_fills_in_order [of ex_start "''u01''" "ex_member ''u01''" None
      "''BASIC''" ex_ids]
  from inst h1 have c1: "\<exists>p st' t st1. assignUserToTriangle ex_start ''u01'' None = Inr (p, st')
         \<and> select_target ex_start (ex_member ''u01'') None = (t, st1)
         \<and> p \<in> set (trianglePositions st1) \<and> triangleId p = tri_id t \<and> userId p = None
         \<and> (\<forall>q\<in>set (trianglePositions st1). triangleId q = tri_id t \<and> userId q = None \<longrightarrow>
               level p < level q \<or> (level p = level q \<and> position p \<le> position q))"
    by blast
  have l15: "length ex_ids = 15" by (simp add: ex_ids_def)
  from inst [THEN conjunct2, THEN mp, OF h2] obtain log st' where
    l: "assign_each ex_start ex_ids = Inr (log, st')"
      "map fst log = take (length ex_ids) (triangle_rows (clock ex_start) (\<lambda>_. None))"
      "map snd log = [1 ..< Suc (length ex_ids)]"
      "length ex_ids < 15 \<longrightarrow>
         map (occupant st' (clock ex_start)) structure_keys
           = map Some ex_ids @ replicate (15 - length ex_ids) None"
      "length ex_ids = 0 \<longrightarrow> st' = ex_start"
      "0 < length ex_ids \<and> length ex_ids < 15 \<longrightarrow> filling ex_start ''BASIC'' ex_ids st'"
    and full: "length ex_ids = 15 \<longrightarrow>
       (\<exists>log14 st14 st15 p.
           assign_each ex_start (butlast ex_ids) = Inr (log14, st14)
           \<and> filling ex_start ''BASIC'' (butlast ex_ids) st14
           \<and> assignUserToTriangle st14 (last ex_ids) None = Inr (p, st')
           \<and> filling ex_start ''BASIC'' ex_ids st15
           \<and> handleTriangleCompletion st15 (clock ex_start) = Inr st')
       \<and> triangles st' = triangles ex_start @
          [new_triangle (clock ex_start + 16) ''BASIC'', new_triangle (clock ex_start + 32) ''BASIC'']
       \<and> trianglePositions st' = trianglePositions ex_start
          @ triangle_rows (clock ex_start + 16) (seated (map ((!) ex_ids) [1, 3, 4, 7, 8, 9, 10]))
          @ triangle_rows (clock ex_start + 32) (seated (map ((!) ex_ids) [2, 5, 6, 11, 12, 13, 14]))
       \<and> (case find_plan ex_start ''BASIC'' of
            None \<Rightarrow> transactions st' = transactions ex_start \<and> users st' = users ex_start
          | Some row \<Rightarrow>
              (\<exists>x. find_user ex_start (hd ex_ids) = Some x
                 \<and> transactions st' =
                     transactions ex_start @ [withdrawal x (payout row) (clock ex_start + 16)])
              \<and> users st' =
                  map (\<lambda>x. if user_id x = hd ex_ids then credit (payout row) x else x)
                    (users ex_start))
       \<and> plans st' = plans ex_start \<and> clock st' = clock ex_start + 48"
    by (elim exE conjE)
  from full [THEN mp, OF l15] obtain log14 st14 st15 p where
    c: "assign_each ex_start (butlast ex_ids) = Inr (log14, st14)"
      "filling ex_start ''BASIC'' (butlast ex_ids) st14"
      "assignUserToTriangle st14 (last ex_ids) None = Inr (p, st')"
      "filling ex_start ''BASIC'' ex_ids st15"
      "handleTriangleCompletion st15 (clock ex_start) = Inr st'"
    and s: "triangles st' = triangles ex_start @
          [new_triangle (clock ex_start + 16) ''BASIC'', new_triangle (clock ex_start + 32) ''BASIC'']"
      "trianglePositions st' = trianglePositions ex_start
          @ triangle_rows (clock ex_start + 16) (seated (map ((!) ex_ids) [1, 3, 4, 7, 8, 9, 10]))
          @ triangle_rows (clock ex_start + 32) (seated (map ((!) ex_ids) [2, 5, 6, 11, 12, 13, 14]))"
      "case find_plan ex_start ''BASIC'' of
         None \<Rightarrow> transactions st' = transactions ex_start \<and> users st' = users ex_start
       | Some row \<Rightarrow>
           (\<exists>x. find_user ex_start (hd ex_ids) = Some x
              \<and> transactions st' =
                  transactions ex_start @ [withdrawal x (payout row) (clock ex_start + 16)])
           \<and> users st' =
               map (\<lambda>x. if user_id x = hd ex_ids then credit (payout row) x else x)
                 (users ex_start)"
      "plans st' = plans ex_start" "clock st' = clock ex_start + 48"
    by (elim exE conjE)
  have "find_plan ex_start ''BASIC'' = Some ex_plan"
    by (simp add: find_plan_def ex_store_defs)
  with s(3) have tx: "transactions st' = [withdrawal (ex_member ''u01'') 100 16]"
    and us: "users st' = map (\<lambda>x. if user_id x = ''u01'' then credit 100 x else x)
                            (map ex_member ex_ids)"
    by (auto simp: find_user_def ex_store_defs)
  have e': "st' = ex_cycled"
  proof (rule store.equality)
    show "users st' = users ex_cycled"
      unfolding us by (simp add: credit_def ex_store_defs)
    show "triangles st' = triangles ex_cycled"
      unfolding s(1) by (simp add: ex_store_defs)
    show "trianglePositions st' = trianglePositions ex_cycled"
      unfolding s(2) by (simp add: ex_cycled_def ex_start_def ex_ids_def)
    show "plans st' = plans ex_cycled"
      unfolding s(4) by (simp add: ex_store_defs)
    show "transactions st' = transactions ex_cycled"
      unfolding tx by (simp add: ex_cycled_def)
    show "clock st' = clock ex_cycled"
      unfolding s(5) by (simp add: ex_store_defs)
  qed simp
  have e14: "st14 = ex_fourteen"
    using c(2) by (intro store.equality) (simp_all add: filling_def ex_store_defs)
  have e15: "st15 = ex_full"
    using c(4) by (intro store.equality) (simp_all add: filling_def seated_def ex_store_defs)
  have "map positionKey (map fst log) = structure_keys"
    unfolding l(2) by (simp add: ex_store_defs)
  moreover have "map snd log = [1, 2, 3, 4, 5, 6, 7, 8, 9, 10, 11, 12, 13, 14, 15]"
    unfolding l(3) by (simp add: ex_ids_def upt_rec)
  ultimately have c2: "\<exists>log. assign_each ex_start ex_ids = Inr (log, ex_cycled)
         \<and> map (positionKey \<circ> fst) log = structure_keys
         \<and> map snd log = [1, 2, 3, 4, 5, 6, 7, 8, 9, 10, 11, 12, 13, 14, 15]"
    using l(1) e' by auto
  have "last ex_ids = ''u15''" by (simp add: ex_ids_def)
  with c(1,3) e' e14
  have c3: "\<exists>log14 p. assign_each ex_start (butlast ex_ids) = Inr (log14, ex_fourteen)
         \<and> assignUserToTriangle ex_fourteen ''u15'' None = Inr (p, ex_cycled)"
    by auto
  from c(5) e' e15 have c4: "handleTriangleCompletion ex_full 0 = Inr ex_cycled"
    by (simp add: ex_start_def)
  from h1 h2 c1 c2 c3 c4 show ?thesis by (intro conjI) simp_all
qed

section \<open>The value returned by a placement\<close>

text \<open>Whenever the completion handler returns, no row of the triangle is left.\<close>

lemma delete_triangle_rows:
  "delete_triangle t st = Inr st' \<Longrightarrow>
     filter (\<lambda>q. triangleId q = t) (trianglePositions st') = []"
  by (auto simp: delete_triangle_def Let_def filter_empty_conv split: if_splits)

lemma cycleTriangle_deletes:
  assumes c: "cycleTriangle st t = Inr st'"
    and tri: "find_triangle st t \<noteq> None"
    and rows: "load_positions st t \<noteq> []"
  shows "filter (\<lambda>q. triangleId q = t) (trianglePositions st') = []"
proof -
  from rows obtain p0 u0 rest where snap: "load_positions st t = (p0, u0) # rest"
    by (cases "load_positions st t") auto
  from load_positions_hd [OF snap] have p0: "triangleId p0 = t" .
  from tri obtain tr where tr: "find_triangle st t = Some tr" by auto
  define inner where "inner =
    (case (slot_user (load_positions st t) 2 0, slot_user (load_positions st t) 2 1) of
       (Some ab1User, Some ab2User) \<Rightarrow> split_triangle (load_positions st t) tr ab1User ab2User st
     | _ \<Rightarrow> Inr st)"
  have "cycleTriangle st t = (case inner of Inl err \<Rightarrow> Inl err | Inr st'' \<Rightarrow> delete_triangle t st'')"
    unfolding cycleTriangle_def Let_def inner_def using snap p0 tr by simp
  with c obtain st'' where "delete_triangle t st'' = Inr st'" by (cases inner) auto
  then show ?thesis by (rule delete_triangle_rows)
qed

lemma completion_payout_frame:
  "completion_payout st t = Inr st' \<Longrightarrow>
     trianglePositions st' = trianglePositions st \<and> triangles st' = triangles st"
  by (auto simp: completion_payout_def Let_def split: option.splits)

lemma mark_complete_frame:
  assumes "mark_complete st t = Inr st'"
  shows "trianglePositions st' = trianglePositions st \<and> find_triangle st' t \<noteq> None"
proof -
  from assms have "list_ex (\<lambda>x. tri_id x = t) (triangles st)"
    by (auto simp: mark_complete_def update_rows_def split: if_splits)
  then have "find_triangle st t \<noteq> None"
    by (simp only: find_triangle_list_ex)
  then obtain tri where "find_triangle st t = Some tri" by auto
  from mark_complete_Inr [OF this] assms show ?thesis by auto
qed

lemma completion_deletes_rows:
  assumes h: "handleTriangleCompletion st t = Inr st'"
    and row: "p \<in> set (trianglePositions st)" "triangleId p = t"
  shows "filter (\<lambda>q. triangleId q = t) (trianglePositions st') = []"
proof -
  from h obtain st1 st2 where m: "mark_complete st t = Inr st1"
    and c: "completion_payout st1 t = Inr st2" and cy: "cycleTriangle st2 t = Inr st'"
    by (auto simp: handleTriangleCompletion_def split: sum.splits)
  from mark_complete_frame [OF m] completion_payout_frame [OF c]
  have ps: "trianglePositions st2 = trianglePositions st" and tri: "find_triangle st2 t \<noteq> None"
    by (simp_all add: find_triangle_def)
  from row ps have "load_positions st2 t \<noteq> []"
    by (auto simp: load_positions_Nil filter_empty_conv)
  from cycleTriangle_deletes [OF cy tri this] show ?thesis .
qed

lemma ex_first_placement:
  "assignUserToTriangle ex_start ''u01'' None =
     Inr (\<lparr>pos_id = 1, triangleId = 0, level = 1, position = 0, positionKey = ''A'',
           userId = None, pos_createdAt = 1\<rparr>, ex_one)"
  by (simp add: engine_defs ex_store_defs)

lemma ex_fifteenth_placement:
  "assignUserToTriangle ex_fourteen ''u15'' None =
     Inr (\<lparr>pos_id = 15, triangleId = 0, level = 4, position = 7, positionKey = ''C4D2'',
           userId = None, pos_createdAt = 1\<rparr>, ex_cycled)"
  by (simp add: engine_defs ex_store_defs)

text \<open>
  C10, as amended: the position returned by a successful placement is the row as read before
  the occupant write, with an empty occupant. In the store right after the write every row with
  the identifier of that row holds the user, and there is one. That store is the one the call
  leaves, unless the placement read 15 filled positions; then the call leaves the store
  returned by the completion handler, in which no row of the triangle of the returned row is
  left.
\<close>

theorem assign_returns_row_as_read:
  assumes "assignUserToTriangle st uid r = Inr (p, st')"
  shows "userId p = None
     \<and> (\<exists>t n st2. place_user st uid r = Inr (p, t, n, st2)
          \<and> triangleId p = tri_id t
          \<and> p\<lparr>userId := Some uid\<rparr> \<in> set (trianglePositions st2)
          \<and> (\<forall>q\<in>set (trianglePositions st2). pos_id q = pos_id p \<longrightarrow> userId q = Some uid)
          \<and> (if n = 15
              then handleTriangleCompletion st2 (tri_id t) = Inr st'
                   \<and> filter (\<lambda>q. triangleId q = triangleId p) (trianglePositions st') = []
              else st' = st2))"
proof -
  from assms obtain u where user: "find_user st uid = Some u"
    by (auto simp: assignUserToTriangle_def place_user_def split: option.splits)
  obtain t st1 where sel: "select_target st u r = (t, st1)" by force
  define st2 where "st2 = st1\<lparr>trianglePositions :=
      map (\<lambda>q. if pos_id q = pos_id p then q\<lparr>userId := Some uid\<rparr> else q)
        (trianglePositions st1)\<rparr>"
  from assign_ok [OF user sel] assms have
    p: "find_open_position st1 (tri_id t) = Some p"
    and pl: "place_user st uid r = Inr (p, t, count_filled st2 (tri_id t), st2)"
    and fin: "if count_filled st2 (tri_id t) = 15
         then handleTriangleCompletion st2 (tri_id t) = Inr st' else st' = st2"
    unfolding st2_def by auto
  from find_open_position_Some [OF p] have mem: "p \<in> set (trianglePositions st1)"
    and none: "userId p = None" and tid: "triangleId p = tri_id t" by simp_all
  from mem have row: "p\<lparr>userId := Some uid\<rparr> \<in> set (trianglePositions st2)"
    by (force simp: st2_def)
  have all: "\<forall>q\<in>set (trianglePositions st2). pos_id q = pos_id p \<longrightarrow> userId q = Some uid"
    by (auto simp: st2_def)
  have gone: "filter (\<lambda>q. triangleId q = triangleId p) (trianglePositions st') = []"
    if "handleTriangleCompletion st2 (tri_id t) = Inr st'"
    using completion_deletes_rows [OF that row] tid by simp
  from fin gone have "if count_filled st2 (tri_id t) = 15
      then handleTriangleCompletion st2 (tri_id t) = Inr st'
           \<and> filter (\<lambda>q. triangleId q = triangleId p) (trianglePositions st') = []
      else st' = st2"
    by (simp split: if_splits)
  with none pl tid row all show ?thesis by blast
qed

text \<open>
  The first placement into \<open>ex_start\<close> leaves the store \<open>ex_one\<close>, in which slot \<open>A\<close> holds
  \<open>u01\<close>; the fifteenth placement, into \<open>ex_fourteen\<close>, reads 15 filled positions and leaves
  the store the completion handler returns for \<open>ex_full\<close>, without any row of triangle \<open>0\<close>.
\<close>

theorem assign_returns_row_as_read_witness:
  "assignUserToTriangle ex_start ''u01'' None =
     Inr (\<lparr>pos_id = 1, triangleId = 0, level = 1, position = 0, positionKey = ''A'',
           userId = None, pos_createdAt = 1\<rparr>, ex_one)
   \<and> place_user ex_start ''u01'' None =
       Inr (\<lparr>pos_id = 1, triangleId = 0, level = 1, position = 0, positionKey = ''A'',
             userId = None, pos_createdAt = 1\<rparr>, ex_triangle, 1, ex_one)
   \<and> \<lparr>pos_id = 1, triangleId = 0, level = 1, position = 0, positionKey = ''A'',
       userId = Some ''u01'', pos_createdAt = 1\<rparr> \<in> set (trianglePositions ex_one)
   \<and> occupant ex_one 0 ''A'' = Some ''u01''
   \<and> assignUserToTriangle ex_fourteen ''u15'' None =
       Inr (\<lparr>pos_id = 15, triangleId = 0, level = 4, position = 7, positionKey = ''C4D2'',
             userId = None, pos_createdAt = 1\<rparr>, ex_cycled)
   \<and> place_user ex_fourteen ''u15'' None =
       Inr (\<lparr>pos_id = 15, triangleId = 0, level = 4, position = 7, positionKey = ''C4D2'',
             userId = None, pos_createdAt = 1\<rparr>, ex_triangle, 15, ex_full)
   \<and> occupant ex_full 0 ''C4D2'' = Some ''u15''
   \<and> handleTriangleCompletion ex_full 0 = Inr ex_cycled
   \<and> filter (\<lambda>q. triangleId q = 0) (trianglePositions ex_cycled) = []"
proof -
  let ?p = "\<lparr>pos_id = 1, triangleId = 0, level = 1, position = 0, positionKey = ''A'',
             userId = None, pos_createdAt = 1\<rparr>"
  let ?q = "\<lparr>pos_id = 15, triangleId = 0, level = 4, position = 7, positionKey = ''C4D2'',
             userId = None, pos_createdAt = 1\<rparr>"
  note a = ex_first_placement
  note b = ex_fifteenth_placement
  have pa: "place_user ex_start ''u01'' None = Inr (?p, ex_triangle, 1, ex_one)"
    by (simp add: engine_defs ex_store_defs)
  have pb: "place_user ex_fourteen ''u15'' None = Inr (?q, ex_triangle, 15, ex_full)"
    by (simp add: engine_defs ex_store_defs)
  have oa: "occupant ex_one 0 ''A'' = Some ''u01''"
    by (simp add: occupant_def seated_def ex_store_defs)
  have ob: "occupant ex_full 0 ''C4D2'' = Some ''u15''"
    by (simp add: occupant_def ex_store_defs)
  from assign_returns_row_as_read [OF a] pa
  have ra: "\<lparr>pos_id = 1, triangleId = 0, level = 1, position = 0, positionKey = ''A'',
       userId = Some ''u01'', pos_createdAt = 1\<rparr> \<in> set (trianglePositions ex_one)"
    by auto
  from assign_returns_row_as_read [OF b] pb
  have "handleTriangleCompletion ex_full (tri_id ex_triangle) = Inr ex_cycled
      \<and> filter (\<lambda>q. triangleId q = triangleId ?q) (trianglePositions ex_cycled) = []"
    by auto
  then have hb: "handleTriangleCompletion ex_full 0 = Inr ex_cycled"
    and gb: "filter (\<lambda>q. triangleId q = 0) (trianglePositions ex_cycled) = []"
    by (simp_all add: ex_triangle_def)
  from a pa ra oa b pb ob hb gb show ?thesis by (intro conjI)
qed

text \<open>
  Without the exception for a completing placement, C10 fails on the fifteenth placement: the
  row returned for \<open>u15\<close> has the identifier 15 and an empty occupant, and the store the call
  leaves has no row with that identifier, the triangle having been cycled; \<open>u15\<close> sits in slot
  \<open>B2C2\<close> of the second successor.
\<close>

theorem assign_last_slot_counterexample:
  "assignUserToTriangle ex_fourteen ''u15'' None =
     Inr (\<lparr>pos_id = 15, triangleId = 0, level = 4, position = 7, positionKey = ''C4D2'',
           userId = None, pos_createdAt = 1\<rparr>, ex_cycled)
   \<and> map pos_id (trianglePositions ex_cycled) = [17 ..< 32] @ [33 ..< 48]
   \<and> occupant ex_cycled 32 ''B2C2'' = Some ''u15''"
proof -
  note ex_fifteenth_placement
  moreover have "map pos_id (trianglePositions ex_cycled) = [17 ..< 32] @ [33 ..< 48]"
    by (simp add: ex_store_defs upt_rec)
  moreover have "occupant ex_cycled 32 ''B2C2'' = Some ''u15''"
    by (simp add: occupant_def seated_def ex_store_defs)
  ultimately show ?thesis by (intro conjI)
qed

section \<open>The triangle a user is placed into\<close>

lemma newest_in_position:
  "newest_in st rid rp \<Longrightarrow> newest_position st rid rp"
  by (auto simp: newest_in_def newest_position_def list_all_iff)

lemma newest_in_unique:
  assumes "newest_in st rid rp" and "newest_position st rid q"
  shows "triangleId q = triangleId rp"
proof -
  from assms have "pos_createdAt rp \<le> pos_createdAt q"
    by (auto simp: newest_in_def newest_position_def list_all_iff)
  moreover from assms have "pos_createdAt q < pos_createdAt rp
      \<or> (pos_createdAt q = pos_createdAt rp \<and> triangleId q = triangleId rp)"
    by (auto simp: newest_in_def newest_position_def list_all_iff)
  ultimately show ?thesis by auto
qed

lemma candidate_referrer_Some_iff:
  "candidate_referrer r upline = Some rid \<longleftrightarrow>
     (r = Some rid \<or> (r = None \<or> r = Some []) \<and> upline = Some rid) \<and> rid \<noteq> []"
  by (cases r; cases upline) (auto simp: candidate_referrer_def truthy_def)

lemma referrer_triangle_offers:
  assumes "referrer_triangle st u r = Some tri"
  shows "\<exists>rid. candidate_referrer r (uplineId u) = Some rid \<and> referrer_offers st u rid"
proof -
  from referrer_triangle_Some [OF assms] obtain rid ref rp where
    c: "candidate_referrer r (uplineId u) = Some rid" and
    f: "find_user st rid = Some ref"
    "newest_position st rid rp" "find_triangle st (triangleId rp) = Some tri"
    "accepts st u tri" by blast
  from f(2) have "rp \<in> set (trianglePositions st)" by (simp add: newest_position_def)
  with f have "referrer_offers st u rid"
    by (auto simp: referrer_offers_def list_ex_iff)
  with c show ?thesis by blast
qed

lemma no_offer_no_referrer_triangle:
  assumes "\<forall>rid. (r = Some rid \<or> (r = None \<or> r = Some []) \<and> uplineId u = Some rid) \<and> rid \<noteq> []
             \<longrightarrow> \<not> referrer_offers st u rid"
  shows "referrer_triangle st u r = None"
proof (cases "referrer_triangle st u r")
  case (Some tri)
  from referrer_triangle_offers [OF Some] obtain rid where
    "candidate_referrer r (uplineId u) = Some rid" "referrer_offers st u rid" by blast
  with assms show ?thesis by (simp add: candidate_referrer_Some_iff)
qed simp

lemma placed_in_existing:
  assumes user: "find_user st uid = Some u"
    and sel: "select_target st u r = (t, st)"
  shows "\<exists>p n st2 st'. assignUserToTriangle st uid r = Inr (p, st')
      \<and> place_user st uid r = Inr (p, t, n, st2)
      \<and> p \<in> set (trianglePositions st) \<and> triangleId p = tri_id t \<and> userId p = None
      \<and> p\<lparr>userId := Some uid\<rparr> \<in> set (trianglePositions st2)
      \<and> st2 = st\<lparr>trianglePositions :=
                   map (\<lambda>q. if pos_id q = pos_id p then q\<lparr>userId := Some uid\<rparr> else q)
                     (trianglePositions st)\<rparr>
      \<and> n = count_filled st2 (tri_id t)
      \<and> (if n = 15 then handleTriangleCompletion st2 (tri_id t) = Inr st' else st' = st2)
      \<and> (n \<noteq> 15 \<longrightarrow> p\<lparr>userId := Some uid\<rparr> \<in> set (trianglePositions st'))"
proof -
  from assign_ok [OF user sel] obtain p st2 st' where
    p: "find_open_position st (tri_id t) = Some p"
    and st2: "st2 = st\<lparr>trianglePositions :=
                   map (\<lambda>q. if pos_id q = pos_id p then q\<lparr>userId := Some uid\<rparr> else q)
                     (trianglePositions st)\<rparr>"
    and pl: "place_user st uid r = Inr (p, t, count_filled st2 (tri_id t), st2)"
    and a: "assignUserToTriangle st uid r = Inr (p, st')"
    and fin: "if count_filled st2 (tri_id t) = 15
         then handleTriangleCompletion st2 (tri_id t) = Inr st' else st' = st2" by blast
  from find_open_position_Some [OF p] have m: "p \<in> set (trianglePositions st)"
    "triangleId p = tri_id t" "userId p = None" by simp_all
  from m(1) have row: "p\<lparr>userId := Some uid\<rparr> \<in> set (trianglePositions st2)"
    by (force simp: st2)
  with fin have "count_filled st2 (tri_id t) \<noteq> 15 \<longrightarrow>
      p\<lparr>userId := Some uid\<rparr> \<in> set (trianglePositions st')"
    by auto
  with row a pl m st2 fin show ?thesis
    by (intro exI [of _ p] exI [of _ "count_filled st2 (tri_id t)"] exI [of _ st2] exI [of _ st'])
       simp
qed

text \<open>
  C2: for an existing user \<open>u\<close>, the candidate referrer \<open>rid\<close> is the argument when it is a
  non-empty string, whatever the stored upline, and else the stored upline when that is a
  non-empty string. (1) When the candidate referrer exists and the triangle of the referrer's
  most recently created position (positions created at the same time being in one triangle)
  has the user's plan, is not complete and has an open slot, the user is placed into that
  triangle. (2) When no most recent position of the candidate referrer lies in such a triangle
  and \<open>old\<close> is the oldest triangle of the user's plan that is not complete and has an open
  slot, the user is placed into \<open>old\<close>. In both cases the call returns an open row \<open>p\<close> of
  that triangle, and the store it leaves is the given store with the user written into the rows
  carrying the identifier of \<open>p\<close>, so that the row \<open>p\<close> with the user as occupant is in it,
  unless the triangle then counts 15 filled positions, in which case it is the store
  \<open>handleTriangleCompletion\<close> returns for that store. (3) When
  neither exists, the call returns the row \<open>A\<close> of a new triangle of the user's plan, and the
  store it leaves is the given store with that triangle added, the user in its slot \<open>A\<close>.
\<close>

theorem assign_chooses_target:
  assumes user: "find_user st uid = Some u"
  shows
    "((r = Some rid \<or> (r = None \<or> r = Some []) \<and> uplineId u = Some rid) \<and> rid \<noteq> []
        \<and> find_user st rid = Some ref
        \<and> newest_in st rid rp \<and> find_triangle st (triangleId rp) = Some tri
        \<and> accepts st u tri \<longrightarrow>
      (\<exists>p n st2 st'. assignUserToTriangle st uid r = Inr (p, st')
         \<and> place_user st uid r = Inr (p, tri, n, st2)
         \<and> p \<in> set (trianglePositions st) \<and> triangleId p = tri_id tri \<and> userId p = None
         \<and> p\<lparr>userId := Some uid\<rparr> \<in> set (trianglePositions st2)
         \<and> st2 = st\<lparr>trianglePositions :=
                      map (\<lambda>q. if pos_id q = pos_id p then q\<lparr>userId := Some uid\<rparr> else q)
                        (trianglePositions st)\<rparr>
         \<and> n = count_filled st2 (tri_id tri)
         \<and> (if n = 15 then handleTriangleCompletion st2 (tri_id tri) = Inr st'
             else st' = st2)
         \<and> (n \<noteq> 15 \<longrightarrow> p\<lparr>userId := Some uid\<rparr> \<in> set (trianglePositions st'))))
     \<and> ((\<forall>rid. (r = Some rid \<or> (r = None \<or> r = Some []) \<and> uplineId u = Some rid) \<and> rid \<noteq> []
               \<longrightarrow> \<not> referrer_offers st u rid)
        \<and> old \<in> set (triangles st) \<and> accepts st u old
        \<and> list_all (\<lambda>t'. accepts st u t' \<longrightarrow>
                      tri_createdAt old < tri_createdAt t' \<or> tri_id t' = tri_id old)
             (triangles st) \<longrightarrow>
      (\<exists>p t n st2 st'. assignUserToTriangle st uid r = Inr (p, st')
         \<and> place_user st uid r = Inr (p, t, n, st2) \<and> tri_id t = tri_id old
         \<and> p \<in> set (trianglePositions st) \<and> triangleId p = tri_id old \<and> userId p = None
         \<and> p\<lparr>userId := Some uid\<rparr> \<in> set (trianglePositions st2)
         \<and> st2 = st\<lparr>trianglePositions :=
                      map (\<lambda>q. if pos_id q = pos_id p then q\<lparr>userId := Some uid\<rparr> else q)
                        (trianglePositions st)\<rparr>
         \<and> n = count_filled st2 (tri_id old)
         \<and> (if n = 15 then handleTriangleCompletion st2 (tri_id old) = Inr st'
             else st' = st2)
         \<and> (n \<noteq> 15 \<longrightarrow> p\<lparr>userId := Some uid\<rparr> \<in> set (trianglePositions st'))))
     \<and> ((\<forall>rid. (r = Some rid \<or> (r = None \<or> r = Some []) \<and> uplineId u = Some rid) \<and> rid \<noteq> []
               \<longrightarrow> \<not> referrer_offers st u rid)
        \<and> list_all (\<lambda>t'. \<not> accepts st u t') (triangles st)
        \<and> fresh st \<longrightarrow>
      (\<exists>st'. assignUserToTriangle st uid r =
                 Inr (\<lparr>pos_id = Suc (clock st), triangleId = clock st, level = 1, position = 0,
                       positionKey = ''A'', userId = None, pos_createdAt = Suc (clock st)\<rparr>, st')
         \<and> find_triangle st (clock st) = None
         \<and> triangles st' = triangles st @
              [\<lparr>tri_id = clock st, planType = plan u, isComplete = False, completedAt = None,
                payoutProcessed = False, tri_createdAt = clock st\<rparr>]
         \<and> map (occupant st' (clock st)) structure_keys = Some uid # replicate 14 None
         \<and> filling st (plan u) [uid] st'))"
proof (intro conjI impI)
  assume h: "(r = Some rid \<or> (r = None \<or> r = Some []) \<and> uplineId u = Some rid) \<and> rid \<noteq> []
        \<and> find_user st rid = Some ref
        \<and> newest_in st rid rp \<and> find_triangle st (triangleId rp) = Some tri
        \<and> accepts st u tri"
  then have c: "candidate_referrer r (uplineId u) = Some rid"
    by (simp add: candidate_referrer_Some_iff)
  from h have "\<forall>q. newest_position st rid q \<longrightarrow> triangleId q = triangleId rp"
    using newest_in_unique by blast
  with h c have "referrer_triangle st u r = Some tri"
    using referrer_triangle_newest [of r u rid st ref rp tri] newest_in_position [of st rid rp]
    by blast
  then have "select_target st u r = (tri, st)" by (simp add: select_target_def)
  from placed_in_existing [OF user this]
  show "\<exists>p n st2 st'. assignUserToTriangle st uid r = Inr (p, st')
         \<and> place_user st uid r = Inr (p, tri, n, st2)
         \<and> p \<in> set (trianglePositions st) \<and> triangleId p = tri_id tri \<and> userId p = None
         \<and> p\<lparr>userId := Some uid\<rparr> \<in> set (trianglePositions st2)
         \<and> st2 = st\<lparr>trianglePositions :=
                      map (\<lambda>q. if pos_id q = pos_id p then q\<lparr>userId := Some uid\<rparr> else q)
                        (trianglePositions st)\<rparr>
         \<and> n = count_filled st2 (tri_id tri)
         \<and> (if n = 15 then handleTriangleCompletion st2 (tri_id tri) = Inr st'
             else st' = st2)
         \<and> (n \<noteq> 15 \<longrightarrow> p\<lparr>userId := Some uid\<rparr> \<in> set (trianglePositions st'))" .
next
  assume h: "(\<forall>rid. (r = Some rid \<or> (r = None \<or> r = Some []) \<and> uplineId u = Some rid) \<and> rid \<noteq> []
               \<longrightarrow> \<not> referrer_offers st u rid)
        \<and> old \<in> set (triangles st) \<and> accepts st u old
        \<and> list_all (\<lambda>t'. accepts st u t' \<longrightarrow>
                      tri_createdAt old < tri_createdAt t' \<or> tri_id t' = tri_id old)
             (triangles st)"
  then have none: "referrer_triangle st u r = None"
    using no_offer_no_referrer_triangle [of r u st] by simp
  from h have "find_oldest_open_triangle st (plan u) \<noteq> None"
    by (auto simp: find_oldest_open_triangle_None_iff)
  then obtain t0 where t0: "find_oldest_open_triangle st (plan u) = Some t0" by auto
  from find_oldest_open_triangle_Some [OF t0] h
  have "t0 \<in> set (triangles st)" "accepts st u t0" "tri_createdAt t0 \<le> tri_createdAt old"
    by auto
  with h have id: "tri_id t0 = tri_id old" by (auto simp: list_all_iff)
  from none t0 have "select_target st u r = (t0, st)" by (simp add: select_target_def)
  from placed_in_existing [OF user this, unfolded id] id
  show "\<exists>p t n st2 st'. assignUserToTriangle st uid r = Inr (p, st')
         \<and> place_user st uid r = Inr (p, t, n, st2) \<and> tri_id t = tri_id old
         \<and> p \<in> set (trianglePositions st) \<and> triangleId p = tri_id old \<and> userId p = None
         \<and> p\<lparr>userId := Some uid\<rparr> \<in> set (trianglePositions st2)
         \<and> st2 = st\<lparr>trianglePositions :=
                      map (\<lambda>q. if pos_id q = pos_id p then q\<lparr>userId := Some uid\<rparr> else q)
                        (trianglePositions st)\<rparr>
         \<and> n = count_filled st2 (tri_id old)
         \<and> (if n = 15 then handleTriangleCompletion st2 (tri_id old) = Inr st'
             else st' = st2)
         \<and> (n \<noteq> 15 \<longrightarrow> p\<lparr>userId := Some uid\<rparr> \<in> set (trianglePositions st'))"
    by blast
next
  assume h: "(\<forall>rid. (r = Some rid \<or> (r = None \<or> r = Some []) \<and> uplineId u = Some rid) \<and> rid \<noteq> []
               \<longrightarrow> \<not> referrer_offers st u rid)
        \<and> list_all (\<lambda>t'. \<not> accepts st u t') (triangles st)
        \<and> fresh st"
  then have fresh: "fresh st" by simp
  from h have none: "referrer_triangle st u r = None"
    using no_offer_no_referrer_triangle [of r u st] by simp
  from h have "find_oldest_open_triangle st (plan u) = None"
    by (simp add: find_oldest_open_triangle_None_iff list_all_iff)
  with none have sel: "select_target st u r =
      (new_triangle (clock st) (plan u),
       st\<lparr>triangles := triangles st @ [new_triangle (clock st) (plan u)],
          trianglePositions := trianglePositions st @ triangle_rows (clock st) (\<lambda>_. None),
          clock := clock st + 16\<rparr>)"
    by (simp add: select_target_def createTriangle_rows)
  have fill: "filling st (plan u) []
      (st\<lparr>triangles := triangles st @ [new_triangle (clock st) (plan u)],
          trianglePositions := trianglePositions st @ triangle_rows (clock st) (\<lambda>_. None),
          clock := clock st + 16\<rparr>)"
    by (simp add: filling_def seated_Nil)
  from assign_filling [OF fresh user sel fill] obtain st2 where
    a: "assignUserToTriangle st uid r = Inr (triangle_rows (clock st) (\<lambda>_. None) ! 0, st2)"
    and f2: "filling st (plan u) [uid] st2" by auto
  have row: "triangle_rows (clock st) (\<lambda>_. None) ! 0 =
      \<lparr>pos_id = Suc (clock st), triangleId = clock st, level = 1, position = 0,
       positionKey = ''A'', userId = None, pos_createdAt = Suc (clock st)\<rparr>"
    by (simp add: triangle_rows_def TRIANGLE_STRUCTURE_def)
  from fresh have new: "find_triangle st (clock st) = None"
    by (auto simp: fresh_def list_all_iff find_triangle_def find_None_iff)
  from filling_occupants [OF fresh f2]
  have occ: "map (occupant st2 (clock st)) structure_keys = Some uid # replicate 14 None"
    by simp
  from f2 have "triangles st2 = triangles st @ [new_triangle (clock st) (plan u)]"
    by (simp add: filling_def)
  with a row new occ f2
  show "\<exists>st'. assignUserToTriangle st uid r =
                 Inr (\<lparr>pos_id = Suc (clock st), triangleId = clock st, level = 1, position = 0,
                       positionKey = ''A'', userId = None, pos_createdAt = Suc (clock st)\<rparr>, st')
         \<and> find_triangle st (clock st) = None
         \<and> triangles st' = triangles st @
              [\<lparr>tri_id = clock st, planType = plan u, isComplete = False, completedAt = None,
                payoutProcessed = False, tri_createdAt = clock st\<rparr>]
         \<and> map (occupant st' (clock st)) structure_keys = Some uid # replicate 14 None
         \<and> filling st (plan u) [uid] st'"
    by (auto simp: new_triangle_def)
qed

text \<open>
  The member \<open>u05\<close> has the stored upline \<open>u02\<close>. Naming the referrer \<open>u04\<close>, \<open>u05\<close> goes to
  the triangle \<open>32\<close> of \<open>u04\<close>, not to the triangle of the upline nor to the oldest one.
  Without an argument, and with the empty string as argument, \<open>u05\<close> goes to the triangle \<open>16\<close>
  of the upline. Naming \<open>u09\<close>, who does not exist, \<open>u05\<close> goes to the oldest open triangle
  \<open>0\<close>, the upline not being consulted. In \<open>ex_start\<close>, where no triangle exists, a triangle
  is created for \<open>u01\<close>.
\<close>

theorem assign_chooses_target_witness:
  "find_user (ex_seats [''u01''] [''u02''] [''u04'']) ''u05'' = Some ex_referred
   \<and> uplineId ex_referred = Some ''u02''
   \<and> find_user (ex_seats [''u01''] [''u02''] [''u04'']) ''u04'' = Some (ex_member ''u04'')
   \<and> newest_in (ex_seats [''u01''] [''u02''] [''u04'']) ''u04''
         \<lparr>pos_id = 33, triangleId = 32, level = 1, position = 0, positionKey = ''A'',
          userId = Some ''u04'', pos_createdAt = 33\<rparr>
   \<and> find_triangle (ex_seats [''u01''] [''u02''] [''u04'']) 32 = Some (new_triangle 32 ''BASIC'')
   \<and> accepts (ex_seats [''u01''] [''u02''] [''u04'']) ex_referred (new_triangle 32 ''BASIC'')
   \<and> assignUserToTriangle (ex_seats [''u01''] [''u02''] [''u04'']) ''u05'' (Some ''u04'') =
        Inr (\<lparr>pos_id = 34, triangleId = 32, level = 2, position = 0, positionKey = ''AB1'',
              userId = None, pos_createdAt = 33\<rparr>,
             ex_seats [''u01''] [''u02''] [''u04'', ''u05''])
   \<and> find_user (ex_seats [''u01''] [''u02''] [''u04'']) ''u02'' = Some (ex_member ''u02'')
   \<and> newest_in (ex_seats [''u01''] [''u02''] [''u04'']) ''u02''
         \<lparr>pos_id = 17, triangleId = 16, level = 1, position = 0, positionKey = ''A'',
          userId = Some ''u02'', pos_createdAt = 17\<rparr>
   \<and> find_triangle (ex_seats [''u01''] [''u02''] [''u04'']) 16 = Some (new_triangle 16 ''BASIC'')
   \<and> accepts (ex_seats [''u01''] [''u02''] [''u04'']) ex_referred (new_triangle 16 ''BASIC'')
   \<and> assignUserToTriangle (ex_seats [''u01''] [''u02''] [''u04'']) ''u05'' None =
        Inr (\<lparr>pos_id = 18, triangleId = 16, level = 2, position = 0, positionKey = ''AB1'',
              userId = None, pos_createdAt = 17\<rparr>,
             ex_seats [''u01''] [''u02'', ''u05''] [''u04''])
   \<and> (\<exists>p st'. assignUserToTriangle (ex_seats [''u01''] [''u02''] [''u04'']) ''u05'' (Some [])
                  = Inr (p, st')
         \<and> triangleId p = 16)
   \<and> \<not> referrer_offers (ex_seats [''u01''] [''u02''] [''u04'']) ex_referred ''u09''
   \<and> ex_triangle \<in> set (triangles (ex_seats [''u01''] [''u02''] [''u04'']))
   \<and> accepts (ex_seats [''u01''] [''u02''] [''u04'']) ex_referred ex_triangle
   \<and> list_all (\<lambda>t'. accepts (ex_seats [''u01''] [''u02''] [''u04'']) ex_referred t' \<longrightarrow>
                  tri_createdAt ex_triangle < tri_createdAt t' \<or> tri_id t' = tri_id ex_triangle)
         (triangles (ex_seats [''u01''] [''u02''] [''u04'']))
   \<and> assignUserToTriangle (ex_seats [''u01''] [''u02''] [''u04'']) ''u05'' (Some ''u09'') =
        Inr (\<lparr>pos_id = 2, triangleId = 0, level = 2, position = 0, positionKey = ''AB1'',
              userId = None, pos_createdAt = 1\<rparr>,
             ex_seats [''u01'', ''u05''] [''u02''] [''u04''])
   \<and> find_user ex_start ''u01'' = Some (ex_member ''u01'')
   \<and> list_all (\<lambda>t'. \<not> accepts ex_start (ex_member ''u01'') t') (triangles ex_start)
   \<and> fresh ex_start
   \<and> (\<exists>st'. assignUserToTriangle ex_start ''u01'' None =
               Inr (\<lparr>pos_id = 1, triangleId = 0, level = 1, position = 0, positionKey = ''A'',
                     userId = None, pos_createdAt = 1\<rparr>, st')
         \<and> map tri_id (triangles st') = [0]
         \<and> map (occupant st' 0) structure_keys = Some ''u01'' # replicate 14 None)"
proof -
  define S where "S = ex_seats [''u01''] [''u02''] [''u04'']"
  let ?rp4 = "\<lparr>pos_id = 33, triangleId = 32, level = 1, position = 0, positionKey = ''A'',
               userId = Some ''u04'', pos_createdAt = 33\<rparr>"
  let ?rp2 = "\<lparr>pos_id = 17, triangleId = 16, level = 1, position = 0, positionKey = ''A'',
               userId = Some ''u02'', pos_createdAt = 17\<rparr>"
  let ?p4 = "\<lparr>pos_id = 34, triangleId = 32, level = 2, position = 0, positionKey = ''AB1'',
              userId = None, pos_createdAt = 33\<rparr>"
  let ?p2 = "\<lparr>pos_id = 18, triangleId = 16, level = 2, position = 0, positionKey = ''AB1'',
              userId = None, pos_createdAt = 17\<rparr>"
  let ?p0 = "\<lparr>pos_id = 2, triangleId = 0, level = 2, position = 0, positionKey = ''AB1'',
              userId = None, pos_createdAt = 1\<rparr>"
  have u5: "find_user S ''u05'' = Some ex_referred"
    by (simp add: S_def find_user_def ex_store_defs)
  have up: "uplineId ex_referred = Some ''u02''"
    by (simp add: ex_referred_def)
  have a1: "find_user S ''u04'' = Some (ex_member ''u04'')"
    by (simp add: S_def find_user_def ex_store_defs)
  have a2: "newest_in S ''u04'' ?rp4"
    by (simp add: S_def newest_in_def seated_def ex_store_defs)
  have a3: "find_triangle S 32 = Some (new_triangle 32 ''BASIC'')"
    by (simp add: S_def find_triangle_def ex_store_defs)
  have a4: "accepts S ex_referred (new_triangle 32 ''BASIC'')"
    by (simp add: S_def accepts_def seated_def ex_store_defs)
  have b1: "find_user S ''u02'' = Some (ex_member ''u02'')"
    by (simp add: S_def find_user_def ex_store_defs)
  have b2: "newest_in S ''u02'' ?rp2"
    by (simp add: S_def newest_in_def seated_def ex_store_defs)
  have b3: "find_triangle S 16 = Some (new_triangle 16 ''BASIC'')"
    by (simp add: S_def find_triangle_def ex_store_defs)
  have b4: "accepts S ex_referred (new_triangle 16 ''BASIC'')"
    by (simp add: S_def accepts_def seated_def ex_store_defs)
  have c1: "\<not> referrer_offers S ex_referred ''u09''"
    by (simp add: S_def referrer_offers_def find_user_def ex_store_defs)
  have c2: "ex_triangle \<in> set (triangles S)"
    by (simp add: S_def ex_store_defs)
  have c3: "accepts S ex_referred ex_triangle"
    by (simp add: S_def accepts_def seated_def ex_store_defs)
  have c4: "list_all (\<lambda>t'. accepts S ex_referred t' \<longrightarrow>
                  tri_createdAt ex_triangle < tri_createdAt t' \<or> tri_id t' = tri_id ex_triangle)
         (triangles S)"
    by (simp add: S_def ex_store_defs)
  have d0: "find_user ex_start ''u01'' = Some (ex_member ''u01'')"
    by (simp add: find_user_def ex_store_defs)
  have d2: "list_all (\<lambda>t'. \<not> accepts ex_start (ex_member ''u01'') t') (triangles ex_start)"
    by (simp add: ex_store_defs)
  have d3: "fresh ex_start"
    by (simp add: fresh_def ex_store_defs)
  have e4: "place_user S ''u05'' (Some ''u04'') =
      Inr (?p4, new_triangle 32 ''BASIC'', 2, ex_seats [''u01''] [''u02''] [''u04'', ''u05''])"
    by (simp add: S_def engine_defs ex_store_defs)
  have e2: "place_user S ''u05'' None =
      Inr (?p2, new_triangle 16 ''BASIC'', 2, ex_seats [''u01''] [''u02'', ''u05''] [''u04''])"
    by (simp add: S_def engine_defs ex_store_defs)
  have e0: "place_user S ''u05'' (Some ''u09'') =
      Inr (?p0, ex_triangle, 2, ex_seats [''u01'', ''u05''] [''u02''] [''u04''])"
    by (simp add: S_def engine_defs ex_store_defs)
  from a1 a2 a3 a4
  have ha: "(Some ''u04'' = Some ''u04''
        \<or> (Some ''u04'' = None \<or> Some ''u04'' = Some []) \<and> uplineId ex_referred = Some ''u04'')
      \<and> ''u04'' \<noteq> []
      \<and> find_user S ''u04'' = Some (ex_member ''u04'')
      \<and> newest_in S ''u04'' ?rp4
      \<and> find_triangle S (triangleId ?rp4) = Some (new_triangle 32 ''BASIC'')
      \<and> accepts S ex_referred (new_triangle 32 ''BASIC'')"
    by simp
  from assign_chooses_target [OF u5, of "Some ''u04''" "''u04''" "ex_member ''u04''" ?rp4
      "new_triangle 32 ''BASIC''", THEN conjunct1, THEN mp, OF ha]
  obtain p n st2 st' where
    "assignUserToTriangle S ''u05'' (Some ''u04'') = Inr (p, st')"
    "place_user S ''u05'' (Some ''u04'') = Inr (p, new_triangle 32 ''BASIC'', n, st2)"
    "if n = 15 then handleTriangleCompletion st2 (tri_id (new_triangle 32 ''BASIC'')) = Inr st'
     else st' = st2"
    by (elim exE conjE)
  with e4 have r4: "assignUserToTriangle S ''u05'' (Some ''u04'') =
      Inr (?p4, ex_seats [''u01''] [''u02''] [''u04'', ''u05''])"
    by simp
  from b1 b2 b3 b4 up
  have hb: "(None = Some ''u02''
        \<or> (None = None \<or> None = Some []) \<and> uplineId ex_referred = Some ''u02'')
      \<and> ''u02'' \<noteq> []
      \<and> find_user S ''u02'' = Some (ex_member ''u02'')
      \<and> newest_in S ''u02'' ?rp2
      \<and> find_triangle S (triangleId ?rp2) = Some (new_triangle 16 ''BASIC'')
      \<and> accepts S ex_referred (new_triangle 16 ''BASIC'')"
    by simp
  from assign_chooses_target [OF u5, of None "''u02''" "ex_member ''u02''" ?rp2
      "new_triangle 16 ''BASIC''", THEN conjunct1, THEN mp, OF hb]
  obtain p n st2 st' where
    "assignUserToTriangle S ''u05'' None = Inr (p, st')"
    "place_user S ''u05'' None = Inr (p, new_triangle 16 ''BASIC'', n, st2)"
    "if n = 15 then handleTriangleCompletion st2 (tri_id (new_triangle 16 ''BASIC'')) = Inr st'
     else st' = st2"
    by (elim exE conjE)
  with e2 have r2: "assignUserToTriangle S ''u05'' None =
      Inr (?p2, ex_seats [''u01''] [''u02'', ''u05''] [''u04''])"
    by simp
  from b1 b2 b3 b4 up
  have hb': "(Some [] = Some ''u02''
        \<or> (Some [] = None \<or> Some [] = Some []) \<and> uplineId ex_referred = Some ''u02'')
      \<and> ''u02'' \<noteq> []
      \<and> find_user S ''u02'' = Some (ex_member ''u02'')
      \<and> newest_in S ''u02'' ?rp2
      \<and> find_triangle S (triangleId ?rp2) = Some (new_triangle 16 ''BASIC'')
      \<and> accepts S ex_referred (new_triangle 16 ''BASIC'')"
    by simp
  from assign_chooses_target [OF u5, of "Some []" "''u02''" "ex_member ''u02''" ?rp2
      "new_triangle 16 ''BASIC''", THEN conjunct1, THEN mp, OF hb']
  obtain p st' where
    "assignUserToTriangle S ''u05'' (Some []) = Inr (p, st')"
    "triangleId p = tri_id (new_triangle 16 ''BASIC'')"
    by (elim exE conjE)
  then have r2': "\<exists>p st'. assignUserToTriangle S ''u05'' (Some []) = Inr (p, st')
      \<and> triangleId p = 16"
    by (auto simp: new_triangle_def)
  from c1 c2 c3 c4 up
  have hc: "(\<forall>rid. (Some ''u09'' = Some rid
               \<or> (Some ''u09'' = None \<or> Some ''u09'' = Some []) \<and> uplineId ex_referred = Some rid)
             \<and> rid \<noteq> [] \<longrightarrow> \<not> referrer_offers S ex_referred rid)
      \<and> ex_triangle \<in> set (triangles S) \<and> accepts S ex_referred ex_triangle
      \<and> list_all (\<lambda>t'. accepts S ex_referred t' \<longrightarrow>
                  tri_createdAt ex_triangle < tri_createdAt t' \<or> tri_id t' = tri_id ex_triangle)
         (triangles S)"
    by simp
  from assign_chooses_target [OF u5, of "Some ''u09''" _ _ _ _ ex_triangle,
      THEN conjunct2, THEN conjunct1, THEN mp, OF hc]
  obtain p t n st2 st' where
    "assignUserToTriangle S ''u05'' (Some ''u09'') = Inr (p, st')"
    "place_user S ''u05'' (Some ''u09'') = Inr (p, t, n, st2)"
    "if n = 15 then handleTriangleCompletion st2 (tri_id ex_triangle) = Inr st' else st' = st2"
    by (elim exE conjE)
  with e0 have r0: "assignUserToTriangle S ''u05'' (Some ''u09'') =
      Inr (?p0, ex_seats [''u01'', ''u05''] [''u02''] [''u04''])"
    by simp
  from d2 d3
  have hd: "(\<forall>rid. (None = Some rid
               \<or> (None = None \<or> None = Some []) \<and> uplineId (ex_member ''u01'') = Some rid)
             \<and> rid \<noteq> [] \<longrightarrow> \<not> referrer_offers ex_start (ex_member ''u01'') rid)
      \<and> list_all (\<lambda>t'. \<not> accepts ex_start (ex_member ''u01'') t') (triangles ex_start)
      \<and> fresh ex_start"
    by (simp add: ex_member_def)
  from assign_chooses_target [OF d0, of None, THEN conjunct2, THEN conjunct2, THEN mp, OF hd]
  obtain st' where "assignUserToTriangle ex_start ''u01'' None =
        Inr (\<lparr>pos_id = Suc (clock ex_start), triangleId = clock ex_start, level = 1,
              position = 0, positionKey = ''A'', userId = None,
              pos_createdAt = Suc (clock ex_start)\<rparr>, st')"
    "triangles st' = triangles ex_start @
        [\<lparr>tri_id = clock ex_start, planType = plan (ex_member ''u01''), isComplete = False,
          completedAt = None, payoutProcessed = False, tri_createdAt = clock ex_start\<rparr>]"
    "map (occupant st' (clock ex_start)) structure_keys = Some ''u01'' # replicate 14 None"
    by (elim exE conjE)
  then have r3: "\<exists>st'. assignUserToTriangle ex_start ''u01'' None =
               Inr (\<lparr>pos_id = 1, triangleId = 0, level = 1, position = 0, positionKey = ''A'',
                     userId = None, pos_createdAt = 1\<rparr>, st')
         \<and> map tri_id (triangles st') = [0]
         \<and> map (occupant st' 0) structure_keys = Some ''u01'' # replicate 14 None"
    by (auto simp: ex_start_def)
  from u5 up a1 a2 a3 a4 r4 b1 b2 b3 b4 r2 r2' c1 c2 c3 c4 r0 d0 d2 d3 r3 show ?thesis
    unfolding S_def by (intro conjI)
qed

end
